theory Spec2Isabelle
  imports Main "HOL-Library.Word"
begin

unbundle bit_operations_syntax

section \<open>Values, errors and JavaScript string primitives\<close>

type_synonym byte = "8 word"

text \<open>
  Every \<open>throw\<close> of \<open>src/index.js\<close> and every failure kind of the codec is a value.
  \<open>BadArgument\<close> is the constructor's \<open>addr must be a string, Buffer, or another Multiaddr\<close>,
  \<open>NotContained\<close> is the error of \<open>decapsulate\<close>, \<open>NotThinWaist\<close> the one of
  \<open>nodeAddress\<close>, \<open>RangeError\<close> the one \<open>varint.decode\<close> throws when the bytes run out.
\<close>

datatype error =
    UnknownProtocol
  | InvalidFormat
  | InvalidValue
  | InvalidAddress
  | NotContained
  | NotThinWaist
  | BadArgument
  | RangeError

text \<open>\<open>String.prototype.split\<close> with a one-character separator: the result is never empty.\<close>

fun js_split :: "char \<Rightarrow> string \<Rightarrow> string list" where
  "js_split c [] = [[]]"
| "js_split c (x # xs) =
     (if x = c then [] # js_split c xs
      else (case js_split c xs of
              [] \<Rightarrow> [[x]]
            | w # ws \<Rightarrow> (x # w) # ws))"

text \<open>\<open>Array.prototype.join\<close> with a one-character separator.\<close>

fun js_join :: "char \<Rightarrow> string list \<Rightarrow> string" where
  "js_join c [] = []"
| "js_join c [w] = w"
| "js_join c (w # v # ws) = w @ c # js_join c (v # ws)"

text \<open>Reading an array index that may be out of range gives \<open>undefined\<close>, here \<open>None\<close>.\<close>

definition js_index :: "'a list \<Rightarrow> nat \<Rightarrow> 'a option" where
  "js_index xs i = (if i < length xs then Some (xs ! i) else None)"

text \<open>
  \<open>String.prototype.lastIndexOf\<close>: the greatest position at which the pattern occurs,
  searched from the right; \<open>None\<close> stands for the result \<open>-1\<close>.
\<close>

fun lastIndexFrom :: "string \<Rightarrow> string \<Rightarrow> nat \<Rightarrow> nat option" where
  "lastIndexFrom s t 0 = (if take (length t) s = t then Some 0 else None)"
| "lastIndexFrom s t (Suc i) =
     (if take (length t) (drop (Suc i) s) = t then Some (Suc i) else lastIndexFrom s t i)"

definition lastIndexOf :: "string \<Rightarrow> string \<Rightarrow> nat option" where
  "lastIndexOf s t =
     (if length s < length t then None else lastIndexFrom s t (length s - length t))"

subsection \<open>Numbers as digit strings\<close>

definition digit_char :: "nat \<Rightarrow> char" where
  "digit_char d = ''0123456789abcdef'' ! d"

definition digit_table :: "(char \<times> nat) list" where
  "digit_table =
     [(CHR ''0'', 0), (CHR ''1'', 1), (CHR ''2'', 2), (CHR ''3'', 3), (CHR ''4'', 4),
      (CHR ''5'', 5), (CHR ''6'', 6), (CHR ''7'', 7), (CHR ''8'', 8), (CHR ''9'', 9),
      (CHR ''a'', 10), (CHR ''b'', 11), (CHR ''c'', 12), (CHR ''d'', 13), (CHR ''e'', 14),
      (CHR ''f'', 15), (CHR ''A'', 10), (CHR ''B'', 11), (CHR ''C'', 12), (CHR ''D'', 13),
      (CHR ''E'', 14), (CHR ''F'', 15)]"

definition digit_val :: "char \<Rightarrow> nat option" where
  "digit_val c = map_of digit_table c"

text \<open>\<open>Number.prototype.toString(b)\<close> on a non-negative integer, for a base from 2 to 16.\<close>

function showNat :: "nat \<Rightarrow> nat \<Rightarrow> string" where
  "showNat b n =
     (if n < b \<or> b < 2 then [digit_char n]
      else showNat b (n div b) @ [digit_char (n mod b)])"
  by pat_completeness auto
termination
  by (relation "measure (\<lambda>(b, n). n)") auto

declare showNat.simps [simp del]

text \<open>
  Reading a digit string in base \<open>b\<close>: every character must be a digit below \<open>b\<close> and
  the string must not be empty.
\<close>

fun readDigits :: "nat \<Rightarrow> nat \<Rightarrow> string \<Rightarrow> nat option" where
  "readDigits b acc [] = Some acc"
| "readDigits b acc (c # cs) =
     (case digit_val c of
        None \<Rightarrow> None
      | Some d \<Rightarrow> if d < b then readDigits b (acc * b + d) cs else None)"

definition readNat :: "nat \<Rightarrow> string \<Rightarrow> nat option" where
  "readNat b s = (if s = [] then None else readDigits b 0 s)"

subsection \<open>Canonical digit strings\<close>

text \<open>
  A digit of base \<open>b\<close> is one of the first \<open>b\<close> characters of \<open>0123456789abcdef\<close>. A
  canonical number is a non-empty digit string without a leading zero (the single digit
  \<open>0\<close> apart): what \<open>showNat\<close> writes.
\<close>

definition is_digit :: "nat \<Rightarrow> char \<Rightarrow> bool" where
  "is_digit b c = (c \<in> set (take b ''0123456789abcdef''))"

definition canonical_number :: "nat \<Rightarrow> string \<Rightarrow> bool" where
  "canonical_number b s =
     (s \<noteq> [] \<and> list_all (is_digit b) s \<and> (length s = 1 \<or> hd s \<noteq> CHR ''0''))"

lemma showNat_digit: "n < b \<Longrightarrow> showNat b n = [digit_char n]"
  by (simp add: showNat.simps)

lemma showNat_step:
  "2 \<le> b \<Longrightarrow> b \<le> n \<Longrightarrow> showNat b n = showNat b (n div b) @ [digit_char (n mod b)]"
  by (subst showNat.simps) simp

lemma digit_char_eval:
  "digit_char 0 = CHR ''0''" "digit_char (Suc 0) = CHR ''1''" "digit_char 1 = CHR ''1''"
  "digit_char 2 = CHR ''2''" "digit_char 3 = CHR ''3''" "digit_char 4 = CHR ''4''"
  "digit_char 5 = CHR ''5''" "digit_char 6 = CHR ''6''" "digit_char 7 = CHR ''7''"
  "digit_char 8 = CHR ''8''" "digit_char 9 = CHR ''9''" "digit_char 10 = CHR ''a''"
  "digit_char 11 = CHR ''b''" "digit_char 12 = CHR ''c''" "digit_char 13 = CHR ''d''"
  "digit_char 14 = CHR ''e''" "digit_char 15 = CHR ''f''"
  by (simp_all add: digit_char_def)

lemma digit_val_eval:
  "digit_val CHR ''0'' = Some 0" "digit_val CHR ''1'' = Some 1" "digit_val CHR ''2'' = Some 2"
  "digit_val CHR ''3'' = Some 3" "digit_val CHR ''4'' = Some 4" "digit_val CHR ''5'' = Some 5"
  "digit_val CHR ''6'' = Some 6" "digit_val CHR ''7'' = Some 7" "digit_val CHR ''8'' = Some 8"
  "digit_val CHR ''9'' = Some 9" "digit_val CHR ''a'' = Some 10" "digit_val CHR ''b'' = Some 11"
  "digit_val CHR ''c'' = Some 12" "digit_val CHR ''d'' = Some 13" "digit_val CHR ''e'' = Some 14"
  "digit_val CHR ''f'' = Some 15"
  by (simp_all add: digit_val_def digit_table_def)

lemma digit_val_digit_char: "d < 16 \<Longrightarrow> digit_val (digit_char d) = Some d"
proof -
  assume "d < 16"
  then have "d \<in> {0,1,2,3,4,5,6,7,8,9,10,11,12,13,14,15}" by (simp, arith)
  then show ?thesis
    by (auto simp: digit_char_eval digit_val_eval)
qed

lemma readDigits_append:
  "readDigits b acc (xs @ ys) =
     (case readDigits b acc xs of None \<Rightarrow> None | Some a \<Rightarrow> readDigits b a ys)"
  by (induction xs arbitrary: acc) (auto split: option.splits)

lemma showNat_nonempty: "showNat b n \<noteq> []"
  by (subst showNat.simps) simp

lemma readDigits_showNat:
  "2 \<le> b \<Longrightarrow> b \<le> 16 \<Longrightarrow> readDigits b 0 (showNat b n) = Some n"
proof (induction b n rule: showNat.induct)
  case (1 b n)
  show ?case
  proof (cases "n < b")
    case True
    with 1 show ?thesis by (simp add: showNat_digit digit_val_digit_char)
  next
    case False
    with 1 have ih: "readDigits b 0 (showNat b (n div b)) = Some (n div b)" by simp
    have lt: "n mod b < b" using 1 by simp
    then have "n mod b < 16" using 1 by linarith
    then have dv: "digit_val (digit_char (n mod b)) = Some (n mod b)"
      by (rule digit_val_digit_char)
    have "showNat b n = showNat b (n div b) @ [digit_char (n mod b)]"
      using False 1 by (simp add: showNat_step)
    then show ?thesis
      by (simp add: readDigits_append ih dv lt)
  qed
qed

lemma readNat_showNat: "2 \<le> b \<Longrightarrow> b \<le> 16 \<Longrightarrow> readNat b (showNat b n) = Some n"
  by (simp add: readNat_def showNat_nonempty readDigits_showNat)

lemma is_digit_char: "is_digit b c \<Longrightarrow> b \<le> 16 \<Longrightarrow> \<exists>d<b. c = digit_char d"
  unfolding is_digit_def digit_char_def
  by (auto simp: in_set_conv_nth)

lemma digit_char_is_digit: "d < b \<Longrightarrow> b \<le> 16 \<Longrightarrow> is_digit b (digit_char d)"
  unfolding is_digit_def digit_char_def
  by (auto simp: in_set_conv_nth intro!: exI[of _ d])

lemma is_digit_not_sep:
  "is_digit b c \<Longrightarrow> c \<noteq> CHR ''/'' \<and> c \<noteq> CHR ''.'' \<and> c \<noteq> CHR '':''"
  unfolding is_digit_def
  by (auto dest!: in_set_takeD)

lemma digit_char_zero_iff: "d < 16 \<Longrightarrow> digit_char d = CHR ''0'' \<longleftrightarrow> d = 0"
proof -
  assume "d < 16"
  then have "d \<in> {0,1,2,3,4,5,6,7,8,9,10,11,12,13,14,15}" by (simp, arith)
  then show ?thesis by (auto simp: digit_char_eval)
qed

lemma canonical_number_read:
  assumes b: "2 \<le> b" "b \<le> 16"
  shows "canonical_number b s \<Longrightarrow>
     \<exists>n. readDigits b 0 s = Some n \<and> showNat b n = s"
proof (induction s rule: rev_induct)
  case Nil
  then show ?case by (simp add: canonical_number_def)
next
  case (snoc c xs)
  from snoc.prems have dig: "is_digit b c" and digs: "list_all (is_digit b) xs"
    and lead: "length (xs @ [c]) = 1 \<or> hd (xs @ [c]) \<noteq> CHR ''0''"
    by (simp_all add: canonical_number_def)
  from dig b obtain d where d: "d < b" "c = digit_char d"
    using is_digit_char by blast
  then have d16: "d < 16" using b by linarith
  show ?case
  proof (cases "xs = []")
    case True
    then show ?thesis using d d16 b
      by (simp add: digit_val_digit_char showNat_digit)
  next
    case False
    with lead have "hd xs \<noteq> CHR ''0''" by simp
    with False digs have "canonical_number b xs" by (simp add: canonical_number_def)
    with snoc.IH obtain m where m: "readDigits b 0 xs = Some m" "showNat b m = xs"
      by blast
    have "m \<noteq> 0"
    proof
      assume "m = 0"
      with m b have "xs = [digit_char 0]" by (simp add: showNat_digit)
      with \<open>hd xs \<noteq> CHR ''0''\<close> show False by (simp add: digit_char_eval)
    qed
    then have ge: "b \<le> m * b + d" using b
      by (metis One_nat_def Suc_leI le_add1 le_trans mult.commute mult_le_mono2 nat_mult_1_right neq0_conv)
    have dm: "(m * b + d) div b = m" "(m * b + d) mod b = d" using d by simp_all
    have "showNat b (m * b + d) = xs @ [c]"
      using showNat_step [OF b(1) ge] m d by (simp add: dm)
    moreover have "readDigits b 0 (xs @ [c]) = Some (m * b + d)"
      using m d d16 by (simp add: readDigits_append digit_val_digit_char)
    ultimately show ?thesis by blast
  qed
qed

lemma canonical_number_roundtrip:
  "2 \<le> b \<Longrightarrow> b \<le> 16 \<Longrightarrow> canonical_number b s \<Longrightarrow>
     \<exists>n. readNat b s = Some n \<and> showNat b n = s"
  using canonical_number_read [of b s]
  by (auto simp: readNat_def canonical_number_def)

lemma showNat_digits:
  "2 \<le> b \<Longrightarrow> b \<le> 16 \<Longrightarrow> list_all (is_digit b) (showNat b n)"
proof (induction b n rule: showNat.induct)
  case (1 b n)
  show ?case
  proof (cases "n < b")
    case True
    with 1 show ?thesis by (simp add: showNat_digit digit_char_is_digit)
  next
    case False
    with 1 have "list_all (is_digit b) (showNat b (n div b))" by simp
    moreover have "is_digit b (digit_char (n mod b))"
      using 1 by (intro digit_char_is_digit) simp_all
    ultimately show ?thesis using False 1 by (simp add: showNat_step)
  qed
qed

lemma showNat_no_sep:
  "2 \<le> b \<Longrightarrow> b \<le> 16 \<Longrightarrow>
     CHR ''/'' \<notin> set (showNat b n) \<and> CHR ''.'' \<notin> set (showNat b n)
     \<and> CHR '':'' \<notin> set (showNat b n)"
  using showNat_digits [of b n] is_digit_not_sep
  by (auto simp: list_all_iff)

lemma showNat_length:
  "2 \<le> b \<Longrightarrow> n < b ^ k \<Longrightarrow> 0 < k \<Longrightarrow> length (showNat b n) \<le> k"
proof (induction b n arbitrary: k rule: showNat.induct)
  case (1 b n)
  show ?case
  proof (cases "n < b")
    case True
    with 1 show ?thesis by (simp add: showNat_digit)
  next
    case False
    from 1(4) obtain j where k: "k = Suc j" by (cases k) auto
    have "j \<noteq> 0"
    proof
      assume "j = 0"
      with 1(3) k have "n < b" by simp
      with False show False by simp
    qed
    have "n div b < b ^ j" using 1(3) k
      by (simp add: less_mult_imp_div_less mult.commute)
    with 1 False \<open>j \<noteq> 0\<close> have "length (showNat b (n div b)) \<le> j" by simp
    then show ?thesis using False 1 k by (simp add: showNat_step)
  qed
qed

subsection \<open>Splitting and joining\<close>

lemma js_split_nonempty: "js_split c s \<noteq> []"
  by (induction s) (auto split: list.splits)

lemma js_split_no_sep: "c \<notin> set w \<Longrightarrow> js_split c w = [w]"
  by (induction w) auto

lemma js_split_append: "c \<notin> set w \<Longrightarrow> js_split c (w @ c # rest) = w # js_split c rest"
  by (induction w) (auto split: list.splits simp: js_split_nonempty)

lemma js_split_join:
  "ws \<noteq> [] \<Longrightarrow> \<forall>w\<in>set ws. c \<notin> set w \<Longrightarrow> js_split c (js_join c ws) = ws"
  by (induction c ws rule: js_join.induct) (auto simp: js_split_no_sep js_split_append)

lemma js_join_split: "js_join c (js_split c s) = s"
proof (induction s)
  case Nil
  then show ?case by simp
next
  case (Cons x xs)
  obtain w ws where ws: "js_split c xs = w # ws"
    using js_split_nonempty [of c xs] by (cases "js_split c xs") auto
  with Cons show ?case by (cases ws) auto
qed

lemma js_split_parts_no_sep: "w \<in> set (js_split c s) \<Longrightarrow> c \<notin> set w"
  by (induction s arbitrary: w) (auto split: if_splits list.splits)

lemma those_map_Some:
  "\<forall>x\<in>set xs. f x = Some (g x) \<Longrightarrow> those (map f xs) = Some (map g xs)"
  by (induction xs) auto

lemma those_map_length: "those (map f xs) = Some ys \<Longrightarrow> length ys = length xs"
  by (induction xs arbitrary: ys) (auto split: option.splits)

lemma js_join_set: "set (js_join c ws) \<subseteq> insert c (\<Union>w\<in>set ws. set w)"
  by (induction c ws rule: js_join.induct) auto

section \<open>Variable-length unsigned integers\<close>

text \<open>
  Modelled from the spec: the package \<open>varint\<close> that \<open>src/index.js\<close> requires is not
  among the sources. The glossary of the spec describes its encoding: base 128, seven
  payload bits a byte and a continuation bit, set on every byte but the last; the groups
  are written least significant first, as the package does. \<open>varint_decode\<close> returns the
  value and the number of bytes read (\<open>varint.decode.bytes\<close>); it reads up to the first
  byte without the continuation bit, whatever the bytes before it hold, and fails when the
  bytes end before one. Numbers are unbounded here; the codes and lengths of an address
  are far below the range where JavaScript numbers lose precision.
\<close>

function varint_encode :: "nat \<Rightarrow> byte list" where
  "varint_encode n =
     (if n < 128 then [of_nat n]
      else of_nat (n mod 128 + 128) # varint_encode (n div 128))"
  by pat_completeness auto
termination
  by (relation "measure id") auto

declare varint_encode.simps [simp del]

fun varint_decode :: "byte list \<Rightarrow> (nat \<times> nat) option" where
  "varint_decode [] = None"
| "varint_decode (b # bs) =
     (if b < 128 then Some (unat b, 1)
      else (case varint_decode bs of
              None \<Rightarrow> None
            | Some (v, n) \<Rightarrow> Some (unat (b AND 127) + 128 * v, Suc n)))"

lemma varint_decode_bytes_pos: "varint_decode bs = Some (v, n) \<Longrightarrow> 0 < n"
  by (cases bs) (auto split: if_splits option.splits)

lemma varint_decode_bytes_le: "varint_decode bs = Some (v, n) \<Longrightarrow> n \<le> length bs"
  by (induction bs arbitrary: v n) (auto split: if_splits option.splits)

lemma varint_encode_small: "n < 128 \<Longrightarrow> varint_encode n = [of_nat n]"
  by (simp add: varint_encode.simps)

lemma unat_byte_lt: "unat (b :: byte) < 256"
  using unsigned_less [of b, where 'a = nat] by simp

lemma unat_of_nat_byte: "n < 256 \<Longrightarrow> unat (of_nat n :: byte) = n"
  by (simp add: unat_of_nat)

lemma of_nat_unat_byte: "(of_nat (unat b) :: byte) = b"
  by simp

text \<open>Decoding an encoded number gives the number back and reads exactly its bytes.\<close>

lemma byte_lt_128_iff: "(b :: byte) < 128 \<longleftrightarrow> unat b < 128"
  by (simp add: word_less_nat_alt)

lemma unat_and_127: "unat ((b :: byte) AND 127) = unat b mod 128"
proof -
  have "unat b AND mask 7 = unat b mod 2 ^ 7"
    by (simp add: take_bit_eq_mod flip: take_bit_eq_mask)
  moreover have "(mask 7 :: nat) = 127" by (simp add: mask_eq_exp_minus_1)
  ultimately show ?thesis by (simp add: unsigned_and_eq)
qed

lemma varint_decode_encode:
  "varint_decode (varint_encode n @ rest) = Some (n, length (varint_encode n))"
proof (induction n rule: varint_encode.induct)
  case (1 n)
  show ?case
  proof (cases "n < 128")
    case True
    then show ?thesis
      by (simp add: varint_encode_small byte_lt_128_iff unat_of_nat_byte)
  next
    case False
    let ?b = "of_nat (n mod 128 + 128) :: byte"
    have u: "unat ?b = n mod 128 + 128" by (rule unat_of_nat_byte) simp
    then have nb: "\<not> ?b < 128" by (simp add: byte_lt_128_iff)
    have "unat (?b AND 127) = unat ?b mod 128" by (rule unat_and_127)
    also have "\<dots> = (n mod 128 + 128) mod 128" by (simp only: u)
    also have "\<dots> = n mod 128" by simp
    finally have a: "unat (?b AND 127) = n mod 128" .
    have e: "varint_encode n = ?b # varint_encode (n div 128)"
      using False by (subst varint_encode.simps) simp
    from 1 False have ih: "varint_decode (varint_encode (n div 128) @ rest)
        = Some (n div 128, length (varint_encode (n div 128)))" by simp
    show ?thesis unfolding e using nb a ih by (simp del: of_nat_add)
  qed
qed

lemma varint_encode_nonempty: "varint_encode n \<noteq> []"
  by (subst varint_encode.simps) simp

lemma varint_decode_append:
  "varint_decode bs = Some (v, n) \<Longrightarrow> varint_decode (bs @ rest) = Some (v, n)"
  by (induction bs arbitrary: v n) (auto split: if_splits option.splits)

lemma varint_decode_take:
  "varint_decode bs = Some (v, n) \<Longrightarrow> n \<le> k \<Longrightarrow> varint_decode (take k bs) = Some (v, n)"
proof (induction bs arbitrary: v n k)
  case Nil
  then show ?case by simp
next
  case (Cons b bs)
  from Cons.prems(1) have "0 < n" by (rule varint_decode_bytes_pos)
  with Cons.prems(2) obtain j where k: "k = Suc j" by (cases k) auto
  show ?case
  proof (cases "b < 128")
    case True
    with Cons.prems k show ?thesis by simp
  next
    case False
    with Cons.prems(1) obtain v' n' where d: "varint_decode bs = Some (v', n')"
      and v: "v = unat (b AND 127) + 128 * v'" and n: "n = Suc n'"
      by (auto split: option.splits)
    from n Cons.prems(2) k have "n' \<le> j" by simp
    from Cons.IH [OF d this] False v n k show ?thesis by simp
  qed
qed

section \<open>Protocol registry\<close>

text \<open>
  Modelled from the spec: \<open>protocols.js\<close>, the registry \<open>src/index.js\<close> requires, is
  not among the sources. The descriptor is the spec's \<open>ProtocolDescriptor\<close>: a code, a
  name and a value size policy (a fixed width in bits, a length-prefixed variable size, or
  no value at all); \<open>path\<close> is the arity of the string form (a path-like value takes the
  whole rest of the string). The table holds one descriptor or more of every kind section
  4.1 of the spec requires: the fixed-width \<open>ip4\<close> = 4 (32 bits), \<open>tcp\<close> = 6 and
  \<open>udp\<close> = 17 (16 bits) and \<open>ip6\<close> = 41 (128 bits), whose codes, names and widths the
  spec and \<open>src/index.js\<close> fix; the length-prefixed textual \<open>dns\<close> = 53, a domain name
  in one segment, and \<open>unix\<close> = 400, a path that takes the rest of the string; the
  length-prefixed binary identifier \<open>ipfs\<close> = 421; and the flag \<open>http\<close> = 480, which
  has no value. The spec gives the last four kinds neither names nor codes; these are the
  ones of the multiaddr protocol table. The code 400 and the ones above it take two bytes
  as a varint.
\<close>

datatype vsize = Fixed nat | VarLen | NoValue

record proto =
  code :: nat
  size_policy :: vsize
  name :: string
  path :: bool

definition table :: "proto list" where
  "table =
     [\<lparr>code = 4, size_policy = Fixed 32, name = ''ip4'', path = False\<rparr>,
      \<lparr>code = 6, size_policy = Fixed 16, name = ''tcp'', path = False\<rparr>,
      \<lparr>code = 17, size_policy = Fixed 16, name = ''udp'', path = False\<rparr>,
      \<lparr>code = 41, size_policy = Fixed 128, name = ''ip6'', path = False\<rparr>,
      \<lparr>code = 53, size_policy = VarLen, name = ''dns'', path = False\<rparr>,
      \<lparr>code = 400, size_policy = VarLen, name = ''unix'', path = True\<rparr>,
      \<lparr>code = 421, size_policy = VarLen, name = ''ipfs'', path = False\<rparr>,
      \<lparr>code = 480, size_policy = NoValue, name = ''http'', path = False\<rparr>]"

text \<open>\<open>protocols(code)\<close> and \<open>protocols(name)\<close>; \<open>None\<close> is the failure \<open>UnknownProtocol\<close>.\<close>

definition protocols :: "nat \<Rightarrow> proto option" where
  "protocols c = find (\<lambda>p. code p = c) table"

definition protocols_byName :: "string \<Rightarrow> proto option" where
  "protocols_byName n = find (\<lambda>p. name p = n) table"

lemma protocols_byName_table:
  "protocols_byName ''ip4'' = Some \<lparr>code = 4, size_policy = Fixed 32, name = ''ip4'', path = False\<rparr>"
  "protocols_byName ''tcp'' = Some \<lparr>code = 6, size_policy = Fixed 16, name = ''tcp'', path = False\<rparr>"
  "protocols_byName ''udp'' = Some \<lparr>code = 17, size_policy = Fixed 16, name = ''udp'', path = False\<rparr>"
  "protocols_byName ''ip6'' = Some \<lparr>code = 41, size_policy = Fixed 128, name = ''ip6'', path = False\<rparr>"
  "protocols_byName ''dns'' = Some \<lparr>code = 53, size_policy = VarLen, name = ''dns'', path = False\<rparr>"
  "protocols_byName ''unix'' = Some \<lparr>code = 400, size_policy = VarLen, name = ''unix'', path = True\<rparr>"
  "protocols_byName ''ipfs'' = Some \<lparr>code = 421, size_policy = VarLen, name = ''ipfs'', path = False\<rparr>"
  "protocols_byName ''http'' = Some \<lparr>code = 480, size_policy = NoValue, name = ''http'', path = False\<rparr>"
  by (simp_all add: protocols_byName_def table_def)

lemma protocols_table:
  "protocols 4 = Some \<lparr>code = 4, size_policy = Fixed 32, name = ''ip4'', path = False\<rparr>"
  "protocols 6 = Some \<lparr>code = 6, size_policy = Fixed 16, name = ''tcp'', path = False\<rparr>"
  "protocols 17 = Some \<lparr>code = 17, size_policy = Fixed 16, name = ''udp'', path = False\<rparr>"
  "protocols 41 = Some \<lparr>code = 41, size_policy = Fixed 128, name = ''ip6'', path = False\<rparr>"
  "protocols 53 = Some \<lparr>code = 53, size_policy = VarLen, name = ''dns'', path = False\<rparr>"
  "protocols 400 = Some \<lparr>code = 400, size_policy = VarLen, name = ''unix'', path = True\<rparr>"
  "protocols 421 = Some \<lparr>code = 421, size_policy = VarLen, name = ''ipfs'', path = False\<rparr>"
  "protocols 480 = Some \<lparr>code = 480, size_policy = NoValue, name = ''http'', path = False\<rparr>"
  by (simp_all add: protocols_def table_def)

lemma protocols_cases:
  "protocols c = Some p \<Longrightarrow>
     (c = 4 \<and> p = \<lparr>code = 4, size_policy = Fixed 32, name = ''ip4'', path = False\<rparr>)
   \<or> (c = 6 \<and> p = \<lparr>code = 6, size_policy = Fixed 16, name = ''tcp'', path = False\<rparr>)
   \<or> (c = 17 \<and> p = \<lparr>code = 17, size_policy = Fixed 16, name = ''udp'', path = False\<rparr>)
   \<or> (c = 41 \<and> p = \<lparr>code = 41, size_policy = Fixed 128, name = ''ip6'', path = False\<rparr>)
   \<or> (c = 53 \<and> p = \<lparr>code = 53, size_policy = VarLen, name = ''dns'', path = False\<rparr>)
   \<or> (c = 400 \<and> p = \<lparr>code = 400, size_policy = VarLen, name = ''unix'', path = True\<rparr>)
   \<or> (c = 421 \<and> p = \<lparr>code = 421, size_policy = VarLen, name = ''ipfs'', path = False\<rparr>)
   \<or> (c = 480 \<and> p = \<lparr>code = 480, size_policy = NoValue, name = ''http'', path = False\<rparr>)"
  by (auto simp: protocols_def table_def split: if_splits)

lemma protocols_byName_cases:
  "protocols_byName n = Some p \<Longrightarrow>
     (n = ''ip4'' \<and> p = \<lparr>code = 4, size_policy = Fixed 32, name = ''ip4'', path = False\<rparr>)
   \<or> (n = ''tcp'' \<and> p = \<lparr>code = 6, size_policy = Fixed 16, name = ''tcp'', path = False\<rparr>)
   \<or> (n = ''udp'' \<and> p = \<lparr>code = 17, size_policy = Fixed 16, name = ''udp'', path = False\<rparr>)
   \<or> (n = ''ip6'' \<and> p = \<lparr>code = 41, size_policy = Fixed 128, name = ''ip6'', path = False\<rparr>)
   \<or> (n = ''dns'' \<and> p = \<lparr>code = 53, size_policy = VarLen, name = ''dns'', path = False\<rparr>)
   \<or> (n = ''unix'' \<and> p = \<lparr>code = 400, size_policy = VarLen, name = ''unix'', path = True\<rparr>)
   \<or> (n = ''ipfs'' \<and> p = \<lparr>code = 421, size_policy = VarLen, name = ''ipfs'', path = False\<rparr>)
   \<or> (n = ''http'' \<and> p = \<lparr>code = 480, size_policy = NoValue, name = ''http'', path = False\<rparr>)"
  by (auto simp: protocols_byName_def table_def split: if_splits)

text \<open>
  The two lookups agree: codes and names are unique, so a descriptor found by its code is
  the one found by its name, and no name holds the separator.
\<close>

lemma protocols_code: "protocols c = Some p \<Longrightarrow> code p = c"
  by (auto dest!: protocols_cases)

lemma protocols_byName_name: "protocols_byName n = Some p \<Longrightarrow> name p = n"
  by (auto dest!: protocols_byName_cases)

lemma protocols_byName_code: "protocols_byName n = Some p \<Longrightarrow> protocols (code p) = Some p"
  by (auto dest!: protocols_byName_cases simp: protocols_table)

lemma protocols_name: "protocols c = Some p \<Longrightarrow> protocols_byName (name p) = Some p"
  by (auto dest!: protocols_cases simp: protocols_byName_table)

lemma protocols_name_no_sep: "protocols c = Some p \<Longrightarrow> CHR ''/'' \<notin> set (name p)"
  by (auto dest!: protocols_cases)

lemma protocols_byName_no_sep: "protocols_byName n = Some p \<Longrightarrow> CHR ''/'' \<notin> set n"
  by (auto dest!: protocols_byName_cases)

subsection \<open>Value transforms\<close>

text \<open>
  Modelled from the spec: the descriptors' \<open>toBytes\<close> and \<open>toDisplay\<close>. A port is a
  decimal integer from 0 to 65535, stored in two bytes, big-endian; an IPv4 address is a
  dotted quad of decimal octets; an IPv6 address is colon-hex, eight groups of one to four
  hexadecimal digits, or fewer groups with one \<open>::\<close> that stands for the groups of zeros
  left out. Rendering writes numbers without leading zeros, hexadecimal digits in lower
  case and all eight groups of an IPv6 address.
\<close>

definition port_toBytes :: "string \<Rightarrow> byte list option" where
  "port_toBytes v =
     (case readNat 10 v of
        None \<Rightarrow> None
      | Some n \<Rightarrow> if n \<le> 65535 then Some [of_nat (n div 256), of_nat (n mod 256)] else None)"

definition port_toDisplay :: "byte list \<Rightarrow> string option" where
  "port_toDisplay bs =
     (case bs of
        [hi, lo] \<Rightarrow> Some (showNat 10 (unat hi * 256 + unat lo))
      | _ \<Rightarrow> None)"

definition octet :: "string \<Rightarrow> byte option" where
  "octet w =
     (case readNat 10 w of
        None \<Rightarrow> None
      | Some n \<Rightarrow> if n \<le> 255 then Some (of_nat n) else None)"

definition ip4_toBytes :: "string \<Rightarrow> byte list option" where
  "ip4_toBytes v =
     (let parts = js_split CHR ''.'' v
      in if length parts = 4 then those (map octet parts) else None)"

definition ip4_toDisplay :: "byte list \<Rightarrow> string option" where
  "ip4_toDisplay bs =
     (if length bs = 4 then Some (js_join CHR ''.'' (map (\<lambda>b. showNat 10 (unat b)) bs))
      else None)"

definition hextet :: "string \<Rightarrow> byte list option" where
  "hextet w =
     (if 4 < length w then None
      else (case readNat 16 w of
              None \<Rightarrow> None
            | Some n \<Rightarrow> Some [of_nat (n div 256), of_nat (n mod 256)]))"

text \<open>
  Modelled from the spec: the colon-hex syntax of an IPv6 address. The first \<open>::\<close> of
  a literal cuts it in two; the groups on both sides are kept and groups of zeros fill
  the address up to eight.
\<close>

fun split_elision :: "string \<Rightarrow> (string \<times> string) option" where
  "split_elision (a # b # cs) =
     (if a = CHR '':'' \<and> b = CHR '':'' then Some ([], cs)
      else map_option (\<lambda>(l, r). (a # l, r)) (split_elision (b # cs)))"
| "split_elision cs = None"

definition ip6_groups :: "string \<Rightarrow> string list" where
  "ip6_groups w = (if w = [] then [] else js_split CHR '':'' w)"

definition ip6_parts :: "string \<Rightarrow> string list" where
  "ip6_parts v =
     (case split_elision v of
        None \<Rightarrow> js_split CHR '':'' v
      | Some (l, r) \<Rightarrow>
          ip6_groups l
            @ replicate (8 - (length (ip6_groups l) + length (ip6_groups r))) ''0''
            @ ip6_groups r)"

definition ip6_toBytes :: "string \<Rightarrow> byte list option" where
  "ip6_toBytes v =
     (let parts = ip6_parts v
      in if length parts = 8 then map_option concat (those (map hextet parts)) else None)"

fun group16 :: "byte list \<Rightarrow> nat list" where
  "group16 (hi # lo # bs) = (unat hi * 256 + unat lo) # group16 bs"
| "group16 bs = []"

definition ip6_toDisplay :: "byte list \<Rightarrow> string option" where
  "ip6_toDisplay bs =
     (if length bs = 16 then Some (js_join CHR '':'' (map (showNat 16) (group16 bs)))
      else None)"

text \<open>
  Modelled from the spec: the transforms of the length-prefixed protocols. \<open>toBytes\<close>
  gives the payload, which \<open>fromString\<close> writes after its length; \<open>toDisplay\<close> is given
  the raw value of the tuple, prefix and payload, as \<open>sizeForAddr\<close> measures it, and
  fails when the prefix does not state the length of the payload. A textual value is
  stored as the bytes of its characters (a character is one byte here) and may hold any
  character, the separator too: no escaping is defined. The spec gives a binary
  identifier no text form; it is written here as two lower-case hexadecimal digits a
  byte, and read in either case. The theorems below use of this form only that every
  well-formed value is rendered, that the rendered text holds no separator and that
  \<open>toBytes\<close> turns it into the same bytes.
\<close>

definition payload :: "byte list \<Rightarrow> byte list option" where
  "payload raw =
     (case varint_decode raw of
        None \<Rightarrow> None
      | Some (len, n) \<Rightarrow> if length raw = n + len then Some (drop n raw) else None)"

definition byte_of_char :: "char \<Rightarrow> byte" where
  "byte_of_char c = of_nat (of_char c)"

definition char_of_byte :: "byte \<Rightarrow> char" where
  "char_of_byte b = char_of (unat b)"

definition text_toBytes :: "string \<Rightarrow> byte list option" where
  "text_toBytes v = Some (map byte_of_char v)"

definition text_toDisplay :: "byte list \<Rightarrow> string option" where
  "text_toDisplay raw = map_option (map char_of_byte) (payload raw)"

fun hex_pairs :: "string \<Rightarrow> byte list option" where
  "hex_pairs [] = Some []"
| "hex_pairs [a] = None"
| "hex_pairs (a # b # cs) =
     (case (digit_val a, digit_val b, hex_pairs cs) of
        (Some x, Some y, Some bs) \<Rightarrow> Some (of_nat (x * 16 + y) # bs)
      | _ \<Rightarrow> None)"

definition hex_show :: "byte list \<Rightarrow> string" where
  "hex_show bs = concat (map (\<lambda>b. [digit_char (unat b div 16), digit_char (unat b mod 16)]) bs)"

definition id_toBytes :: "string \<Rightarrow> byte list option" where
  "id_toBytes v = hex_pairs v"

definition id_toDisplay :: "byte list \<Rightarrow> string option" where
  "id_toDisplay raw = map_option hex_show (payload raw)"

text \<open>
  Modelled from the spec: the transforms of a descriptor, found by its code; a failure is
  \<open>InvalidValue\<close>. A protocol without a value has none.
\<close>

definition toBytes :: "proto \<Rightarrow> string \<Rightarrow> error + byte list" where
  "toBytes p v =
     (case (if code p = 4 then ip4_toBytes v
            else if code p = 41 then ip6_toBytes v
            else if code p = 6 \<or> code p = 17 then port_toBytes v
            else if code p = 53 \<or> code p = 400 then text_toBytes v
            else if code p = 421 then id_toBytes v
            else None) of
        None \<Rightarrow> Inl InvalidValue
      | Some bs \<Rightarrow> Inr bs)"

definition toDisplay :: "proto \<Rightarrow> byte list \<Rightarrow> error + string" where
  "toDisplay p bs =
     (case (if code p = 4 then ip4_toDisplay bs
            else if code p = 41 then ip6_toDisplay bs
            else if code p = 6 \<or> code p = 17 then port_toDisplay bs
            else if code p = 53 \<or> code p = 400 then text_toDisplay bs
            else if code p = 421 then id_toDisplay bs
            else None) of
        None \<Rightarrow> Inl InvalidValue
      | Some s \<Rightarrow> Inr s)"

subsection \<open>Canonical values\<close>

text \<open>
  Modelled from the spec: the value syntax of the string grammar, in its canonical form.
  A port is a canonical decimal number up to 65535, an IPv4 address four canonical
  decimal octets separated by dots, an IPv6 address eight groups of canonical lower-case
  hexadecimal numbers of at most four digits, separated by colons, a binary identifier an
  even number of lower-case hexadecimal digits. Every text is the canonical form of a
  textual value.
\<close>

definition canonical_port :: "string \<Rightarrow> bool" where
  "canonical_port w =
     (canonical_number 10 w \<and> (case readNat 10 w of None \<Rightarrow> False | Some n \<Rightarrow> n \<le> 65535))"

definition canonical_octet :: "string \<Rightarrow> bool" where
  "canonical_octet w =
     (canonical_number 10 w \<and> (case readNat 10 w of None \<Rightarrow> False | Some n \<Rightarrow> n \<le> 255))"

definition canonical_ip4 :: "string \<Rightarrow> bool" where
  "canonical_ip4 v =
     (let parts = js_split CHR ''.'' v
      in length parts = 4 \<and> list_all canonical_octet parts)"

definition canonical_hextet :: "string \<Rightarrow> bool" where
  "canonical_hextet w = (canonical_number 16 w \<and> length w \<le> 4)"

definition canonical_ip6 :: "string \<Rightarrow> bool" where
  "canonical_ip6 v =
     (let parts = js_split CHR '':'' v
      in length parts = 8 \<and> list_all canonical_hextet parts)"

definition pair16 :: "nat \<Rightarrow> byte list" where
  "pair16 n = [of_nat (n div 256), of_nat (n mod 256)]"

definition canonical_id :: "string \<Rightarrow> bool" where
  "canonical_id v = (even (length v) \<and> list_all (is_digit 16) v)"

definition canonical_value :: "proto \<Rightarrow> string \<Rightarrow> bool" where
  "canonical_value p v =
     (if code p = 4 then canonical_ip4 v
      else if code p = 41 then canonical_ip6 v
      else if code p = 6 \<or> code p = 17 then canonical_port v
      else if code p = 53 \<or> code p = 400 then True
      else if code p = 421 then canonical_id v
      else False)"

subsection \<open>The transforms are inverse to each other\<close>

lemma split_elision_None:
  "[] \<notin> set (tl (js_split CHR '':'' s)) \<Longrightarrow> split_elision s = None"
proof (induction s rule: split_elision.induct)
  case (1 a b cs)
  obtain w ws where ws: "js_split CHR '':'' (b # cs) = w # ws"
    using js_split_nonempty [of "CHR '':''" "b # cs"] by (cases "js_split CHR '':'' (b # cs)") auto
  show ?case
  proof (cases "a = CHR '':''")
    case True
    with "1.prems" have n: "[] \<notin> set (js_split CHR '':'' (b # cs))" by simp
    then have b: "b \<noteq> CHR '':''" by auto
    from n ws have "[] \<notin> set (tl (js_split CHR '':'' (b # cs)))" by auto
    with "1.IH" True b show ?thesis by simp
  next
    case False
    with "1.prems" ws have "[] \<notin> set (tl (js_split CHR '':'' (b # cs)))" by simp
    with "1.IH" False show ?thesis by simp
  qed
qed simp_all

lemma ip6_parts_plain:
  "[] \<notin> set (js_split CHR '':'' s) \<Longrightarrow> ip6_parts s = js_split CHR '':'' s"
proof -
  assume a: "[] \<notin> set (js_split CHR '':'' s)"
  have "js_split CHR '':'' s \<noteq> []" by (rule js_split_nonempty)
  with a have "[] \<notin> set (tl (js_split CHR '':'' s))"
    by (cases "js_split CHR '':'' s") auto
  then show ?thesis by (simp add: ip6_parts_def split_elision_None)
qed

lemma port_display_bytes:
  "port_toDisplay bs = Some s \<Longrightarrow> port_toBytes s = Some bs"
proof -
  assume a: "port_toDisplay bs = Some s"
  then obtain hi lo where bs: "bs = [hi, lo]"
    by (auto simp: port_toDisplay_def split: list.splits)
  let ?n = "unat hi * 256 + unat lo"
  have s: "s = showNat 10 ?n" using a bs by (simp add: port_toDisplay_def)
  have lo: "unat lo < 256" and hi: "unat hi < 256" by (rule unat_byte_lt)+
  then have n: "?n \<le> 65535" by simp
  have "?n div 256 = unat hi" "?n mod 256 = unat lo" using lo by simp_all
  then show ?thesis using n bs s
    by (simp add: port_toBytes_def readNat_showNat)
qed

lemma port_toBytes_length: "port_toBytes s = Some bs \<Longrightarrow> length bs = 2"
  by (auto simp: port_toBytes_def split: option.splits if_splits)

lemma port_toDisplay_total: "length bs = 2 \<Longrightarrow> \<exists>s. port_toDisplay bs = Some s"
  by (auto simp: port_toDisplay_def numeral_2_eq_2 length_Suc_conv)

lemma port_toDisplay_no_sep:
  "port_toDisplay bs = Some s \<Longrightarrow> CHR ''/'' \<notin> set s"
  using showNat_no_sep [of 10]
  by (auto simp: port_toDisplay_def split: list.splits)

lemma port_bytes_display:
  assumes "canonical_number 10 s" "readNat 10 s = Some n" "n \<le> 65535"
  shows "\<exists>bs. port_toBytes s = Some bs \<and> port_toDisplay bs = Some s"
proof -
  from assms(1) obtain m where m: "readNat 10 s = Some m" "showNat 10 m = s"
    using canonical_number_roundtrip [of 10 s] by auto
  with assms have mn: "m = n" by simp
  have "n div 256 < 256" "n mod 256 < 256" using assms(3) by simp_all
  then have "unat (of_nat (n div 256) :: byte) * 256 + unat (of_nat (n mod 256) :: byte) = n"
    by (simp add: unat_of_nat_byte)
  then show ?thesis using assms m mn
    by (simp add: port_toBytes_def port_toDisplay_def)
qed

lemma octet_showNat: "octet (showNat 10 (unat (b :: byte))) = Some b"
  using unat_byte_lt [of b] by (simp add: octet_def readNat_showNat)

lemma ip4_display_bytes: "ip4_toDisplay bs = Some s \<Longrightarrow> ip4_toBytes s = Some bs"
proof -
  assume a: "ip4_toDisplay bs = Some s"
  let ?ws = "map (\<lambda>b. showNat 10 (unat b)) bs"
  from a have len: "length bs = 4" and s: "s = js_join CHR ''.'' ?ws"
    by (auto simp: ip4_toDisplay_def split: if_splits)
  have "?ws \<noteq> []" using len by auto
  moreover have "\<forall>w\<in>set ?ws. CHR ''.'' \<notin> set w" using showNat_no_sep [of 10] by auto
  ultimately have split: "js_split CHR ''.'' s = ?ws" unfolding s by (rule js_split_join)
  have "those (map octet ?ws) = Some (map id bs)"
    unfolding map_map by (rule those_map_Some) (simp add: octet_showNat)
  then show ?thesis using len by (simp add: ip4_toBytes_def split)
qed

lemma ip4_toBytes_length: "ip4_toBytes s = Some bs \<Longrightarrow> length bs = 4"
  by (auto simp: ip4_toBytes_def Let_def split: if_splits dest: those_map_length)

lemma ip4_toDisplay_no_sep: "ip4_toDisplay bs = Some s \<Longrightarrow> CHR ''/'' \<notin> set s"
  using js_join_set [of "CHR ''.''" "map (\<lambda>b. showNat 10 (unat b)) bs"] showNat_no_sep [of 10]
  by (auto simp: ip4_toDisplay_def split: if_splits)

lemma canonical_octet_roundtrip:
  "canonical_octet w \<Longrightarrow> \<exists>b. octet w = Some b \<and> showNat 10 (unat b) = w"
proof -
  assume a: "canonical_octet w"
  then obtain n where n: "readNat 10 w = Some n" "showNat 10 n = w"
    using canonical_number_roundtrip [of 10 w] by (auto simp: canonical_octet_def)
  with a have "n \<le> 255" by (simp add: canonical_octet_def)
  then show ?thesis using n by (simp add: octet_def unat_of_nat_byte)
qed

lemma ip4_bytes_display:
  "canonical_ip4 s \<Longrightarrow> \<exists>bs. ip4_toBytes s = Some bs \<and> ip4_toDisplay bs = Some s"
proof -
  assume a: "canonical_ip4 s"
  let ?ws = "js_split CHR ''.'' s"
  let ?g = "\<lambda>w. the (octet w)"
  from a have len: "length ?ws = 4" and can: "\<forall>w\<in>set ?ws. canonical_octet w"
    by (simp_all add: canonical_ip4_def Let_def list_all_iff)
  have each: "\<forall>w\<in>set ?ws. octet w = Some (?g w) \<and> showNat 10 (unat (?g w)) = w"
    using can canonical_octet_roundtrip by fastforce
  then have th: "those (map octet ?ws) = Some (map ?g ?ws)"
    by (intro those_map_Some) simp
  have "map (\<lambda>b. showNat 10 (unat b)) (map ?g ?ws) = ?ws"
    using each by (simp add: map_idI)
  then have "ip4_toDisplay (map ?g ?ws) = Some s"
    using len by (simp add: ip4_toDisplay_def js_join_split)
  then show ?thesis using th len by (simp add: ip4_toBytes_def)
qed

lemma group16_length: "length (group16 bs) = length bs div 2"
  by (induction bs rule: group16.induct) auto

lemma group16_bound: "\<forall>n\<in>set (group16 bs). n < 65536"
proof (induction bs rule: group16.induct)
  case (1 hi lo bs)
  have "unat hi < 256" "unat lo < 256" by (rule unat_byte_lt)+
  then have "unat hi * 256 + unat lo < 65536" by simp
  with 1 show ?case by simp
qed auto

lemma concat_pair16_group16:
  "even (length bs) \<Longrightarrow> concat (map pair16 (group16 bs)) = bs"
proof (induction bs rule: group16.induct)
  case (1 hi lo bs)
  have lo: "unat lo < 256" by (rule unat_byte_lt)
  then have "(unat hi * 256 + unat lo) div 256 = unat hi"
       "(unat hi * 256 + unat lo) mod 256 = unat lo" by simp_all
  with 1 show ?case by (simp add: pair16_def)
qed auto

lemma group16_concat_pair16:
  "\<forall>n\<in>set ns. n < 65536 \<Longrightarrow> group16 (concat (map pair16 ns)) = ns"
proof (induction ns)
  case Nil
  then show ?case by simp
next
  case (Cons n ns)
  then have n: "n < 65536" by simp
  then have "n div 256 < 256" "n mod 256 < 256" by simp_all
  then have "unat (of_nat (n div 256) :: byte) * 256 + unat (of_nat (n mod 256) :: byte) = n"
    by (simp add: unat_of_nat_byte)
  with Cons show ?case by (simp add: pair16_def)
qed

lemma hextet_showNat: "n < 65536 \<Longrightarrow> hextet (showNat 16 n) = Some (pair16 n)"
proof -
  assume "n < 65536"
  then have "n < 16 ^ 4" by simp
  then have "length (showNat 16 n) \<le> 4" by (intro showNat_length) simp_all
  then show ?thesis by (simp add: hextet_def readNat_showNat pair16_def)
qed

lemma ip6_display_bytes: "ip6_toDisplay bs = Some s \<Longrightarrow> ip6_toBytes s = Some bs"
proof -
  assume a: "ip6_toDisplay bs = Some s"
  let ?ns = "group16 bs"
  let ?ws = "map (showNat 16) ?ns"
  from a have len: "length bs = 16" and s: "s = js_join CHR '':'' ?ws"
    by (auto simp: ip6_toDisplay_def split: if_splits)
  have n8: "length ?ns = 8" using len by (simp add: group16_length)
  then have "?ws \<noteq> []" by auto
  moreover have "\<forall>w\<in>set ?ws. CHR '':'' \<notin> set w" using showNat_no_sep [of 16] by auto
  ultimately have split: "js_split CHR '':'' s = ?ws" unfolding s by (rule js_split_join)
  have "those (map hextet ?ws) = Some (map pair16 ?ns)"
    unfolding map_map using group16_bound [of bs]
    by (intro those_map_Some) (simp add: hextet_showNat)
  moreover have "concat (map pair16 ?ns) = bs"
    using len by (intro concat_pair16_group16) simp
  moreover have "[] \<notin> set ?ws" using showNat_nonempty [of 16] by (auto simp: eq_commute)
  then have "ip6_parts s = ?ws" using split ip6_parts_plain [of s] by simp
  ultimately show ?thesis using n8 by (simp add: ip6_toBytes_def)
qed

lemma hextet_length: "hextet w = Some bs \<Longrightarrow> length bs = 2"
  by (auto simp: hextet_def split: if_splits option.splits)

lemma those_hextet_length:
  "those (map hextet ws) = Some bss \<Longrightarrow> length (concat bss) = 2 * length ws"
  by (induction ws arbitrary: bss) (auto split: option.splits dest: hextet_length)

lemma ip6_toBytes_length: "ip6_toBytes s = Some bs \<Longrightarrow> length bs = 16"
  by (auto simp: ip6_toBytes_def Let_def split: if_splits dest!: those_hextet_length)

lemma ip6_toDisplay_no_sep: "ip6_toDisplay bs = Some s \<Longrightarrow> CHR ''/'' \<notin> set s"
  using js_join_set [of "CHR '':''" "map (showNat 16) (group16 bs)"] showNat_no_sep [of 16]
  by (auto simp: ip6_toDisplay_def split: if_splits)

lemma readDigits_bound:
  "readDigits b acc s = Some n \<Longrightarrow> acc < m \<Longrightarrow> n < m * b ^ length s"
proof (induction s arbitrary: acc m)
  case Nil
  then show ?case by simp
next
  case (Cons c cs)
  from Cons.prems(1) obtain d where d: "digit_val c = Some d" "d < b"
    and r: "readDigits b (acc * b + d) cs = Some n"
    by (auto split: option.splits if_splits)
  have "acc * b + d < m * b"
  proof -
    have "Suc acc \<le> m" using Cons.prems(2) by simp
    then have "Suc acc * b \<le> m * b" by (rule mult_le_mono1)
    then show ?thesis using d(2) by simp
  qed
  from Cons.IH [OF r this] show ?case by (simp add: mult.assoc)
qed

lemma canonical_hextet_roundtrip:
  "canonical_hextet w \<Longrightarrow> \<exists>n<65536. hextet w = Some (pair16 n) \<and> showNat 16 n = w"
proof -
  assume a: "canonical_hextet w"
  then obtain n where n: "readNat 16 w = Some n" "showNat 16 n = w"
    using canonical_number_roundtrip [of 16 w] by (auto simp: canonical_hextet_def)
  from a have len: "length w \<le> 4" by (simp add: canonical_hextet_def)
  from n(1) have "readDigits 16 0 w = Some n" by (auto simp: readNat_def split: if_splits)
  then have "n < 1 * 16 ^ length w" by (rule readDigits_bound) simp
  moreover have "(16::nat) ^ length w \<le> 16 ^ 4"
    using len by (intro power_increasing) simp_all
  ultimately have "n < 65536" by simp
  then show ?thesis using n len by (auto simp: hextet_def pair16_def)
qed

lemma ip6_bytes_display:
  "canonical_ip6 s \<Longrightarrow> \<exists>bs. ip6_toBytes s = Some bs \<and> ip6_toDisplay bs = Some s"
proof -
  assume a: "canonical_ip6 s"
  let ?ws = "js_split CHR '':'' s"
  let ?g = "\<lambda>w. the (readNat 16 w)"
  from a have len: "length ?ws = 8" and can: "\<forall>w\<in>set ?ws. canonical_hextet w"
    by (simp_all add: canonical_ip6_def Let_def list_all_iff)
  have each: "\<forall>w\<in>set ?ws. ?g w < 65536 \<and> hextet w = Some (pair16 (?g w)) \<and> showNat 16 (?g w) = w"
  proof
    fix w assume "w \<in> set ?ws"
    with can obtain n where n: "n < 65536" "hextet w = Some (pair16 n)" "showNat 16 n = w"
      using canonical_hextet_roundtrip by blast
    then have "readNat 16 w = Some n" using readNat_showNat [of 16 n] by simp
    with n show "?g w < 65536 \<and> hextet w = Some (pair16 (?g w)) \<and> showNat 16 (?g w) = w"
      by simp
  qed
  let ?ns = "map ?g ?ws"
  have th: "those (map hextet ?ws) = Some (map (\<lambda>w. pair16 (?g w)) ?ws)"
    using each by (intro those_map_Some) simp
  have bnd: "\<forall>n\<in>set ?ns. n < 65536" using each by simp
  let ?bs = "concat (map pair16 ?ns)"
  have g: "group16 ?bs = ?ns" using bnd by (rule group16_concat_pair16)
  have l: "length ?bs = 16" using len by (simp add: length_concat pair16_def comp_def sum_list_triv)
  have "map (showNat 16) ?ns = ?ws" using each by (simp add: map_idI)
  then have "ip6_toDisplay ?bs = Some s"
    using l g by (simp add: ip6_toDisplay_def js_join_split)
  moreover have "[] \<notin> set ?ws"
    using can by (auto simp: canonical_hextet_def canonical_number_def)
  then have "ip6_parts s = ?ws" by (rule ip6_parts_plain)
  then have "ip6_toBytes s = Some ?bs"
    using th len by (simp add: ip6_toBytes_def comp_def)
  ultimately show ?thesis by blast
qed

lemma showNat_hd:
  "2 \<le> b \<Longrightarrow> b \<le> 16 \<Longrightarrow> 0 < n \<Longrightarrow> hd (showNat b n) \<noteq> CHR ''0''"
proof (induction b n rule: showNat.induct)
  case (1 b n)
  show ?case
  proof (cases "n < b")
    case True
    then have "n < 16" using 1(3) by linarith
    with True 1 show ?thesis by (simp add: showNat_digit digit_char_zero_iff)
  next
    case False
    then have "0 < n div b" using 1(2) by (simp add: div_greater_zero_iff)
    with 1 False have "hd (showNat b (n div b)) \<noteq> CHR ''0''" by simp
    then show ?thesis using False 1 by (simp add: showNat_step showNat_nonempty)
  qed
qed

lemma showNat_canonical: "2 \<le> b \<Longrightarrow> b \<le> 16 \<Longrightarrow> canonical_number b (showNat b n)"
proof (cases "n = 0")
  case True
  assume "2 \<le> b" "b \<le> 16"
  with True showNat_digits [of b 0] show ?thesis
    by (simp add: canonical_number_def showNat_digit)
next
  case False
  assume "2 \<le> b" "b \<le> 16"
  with False showNat_digits [of b n] showNat_hd [of b n] show ?thesis
    by (simp add: canonical_number_def showNat_nonempty)
qed

lemma port_toDisplay_canonical: "port_toDisplay bs = Some s \<Longrightarrow> canonical_port s"
proof -
  assume a: "port_toDisplay bs = Some s"
  then obtain hi lo where "bs = [hi, lo]"
    by (auto simp: port_toDisplay_def split: list.splits)
  with a have s: "s = showNat 10 (unat hi * 256 + unat lo)"
    by (simp add: port_toDisplay_def)
  have "unat hi < 256" "unat lo < 256" by (rule unat_byte_lt)+
  then have "unat hi * 256 + unat lo \<le> 65535" by simp
  then show ?thesis unfolding s
    by (simp add: canonical_port_def showNat_canonical readNat_showNat)
qed

lemma ip4_toDisplay_canonical: "ip4_toDisplay bs = Some s \<Longrightarrow> canonical_ip4 s"
proof -
  assume a: "ip4_toDisplay bs = Some s"
  let ?ws = "map (\<lambda>b. showNat 10 (unat b)) bs"
  from a have len: "length bs = 4" and s: "s = js_join CHR ''.'' ?ws"
    by (auto simp: ip4_toDisplay_def split: if_splits)
  have "?ws \<noteq> []" using len by auto
  moreover have "\<forall>w\<in>set ?ws. CHR ''.'' \<notin> set w" using showNat_no_sep [of 10] by auto
  ultimately have split: "js_split CHR ''.'' s = ?ws" unfolding s by (rule js_split_join)
  have "canonical_octet (showNat 10 (unat b))" for b :: byte
    using unat_byte_lt [of b]
    by (simp add: canonical_octet_def showNat_canonical readNat_showNat)
  then show ?thesis using len
    by (simp add: canonical_ip4_def split list_all_iff)
qed

lemma ip6_toDisplay_canonical: "ip6_toDisplay bs = Some s \<Longrightarrow> canonical_ip6 s"
proof -
  assume a: "ip6_toDisplay bs = Some s"
  let ?ns = "group16 bs"
  let ?ws = "map (showNat 16) ?ns"
  from a have len: "length bs = 16" and s: "s = js_join CHR '':'' ?ws"
    by (auto simp: ip6_toDisplay_def split: if_splits)
  have n8: "length ?ns = 8" using len by (simp add: group16_length)
  then have "?ws \<noteq> []" by auto
  moreover have "\<forall>w\<in>set ?ws. CHR '':'' \<notin> set w" using showNat_no_sep [of 16] by auto
  ultimately have split: "js_split CHR '':'' s = ?ws" unfolding s by (rule js_split_join)
  have "canonical_hextet (showNat 16 n)" if "n < 65536" for n
  proof -
    from that have "n < 16 ^ 4" by simp
    then have "length (showNat 16 n) \<le> 4" by (intro showNat_length) simp_all
    then show ?thesis by (simp add: canonical_hextet_def showNat_canonical)
  qed
  then show ?thesis using n8 group16_bound [of bs]
    by (simp add: canonical_ip6_def split list_all_iff)
qed

lemma of_char_lt: "(of_char c :: nat) < 256"
proof -
  have "(of_char c :: nat) = of_char c mod 256" by (simp only: of_char_mod_256)
  also have "\<dots> < 256" by simp
  finally show ?thesis .
qed

lemma byte_of_char_inverse: "char_of_byte (byte_of_char c) = c"
  by (simp add: char_of_byte_def byte_of_char_def unat_of_nat_byte of_char_lt)

lemma char_of_byte_inverse: "byte_of_char (char_of_byte b) = b"
proof -
  have "unat b mod 256 = unat b" using unat_byte_lt [of b] by simp
  then show ?thesis by (simp add: char_of_byte_def byte_of_char_def)
qed

lemma payload_prefixed: "payload (varint_encode (length bs) @ bs) = Some bs"
  by (simp add: payload_def varint_decode_encode)

lemma text_display_bytes: "text_toDisplay (varint_encode (length bs) @ bs) = Some d \<Longrightarrow>
    text_toBytes d = Some bs"
  by (auto simp: text_toDisplay_def text_toBytes_def payload_prefixed comp_def
      char_of_byte_inverse)

lemma text_bytes_display:
  "text_toBytes v = Some bs \<Longrightarrow> text_toDisplay (varint_encode (length bs) @ bs) = Some v"
  by (auto simp: text_toDisplay_def text_toBytes_def payload_prefixed comp_def
      byte_of_char_inverse)

lemma hex_byte: "(of_nat (unat (b :: byte) div 16 * 16 + unat b mod 16) :: byte) = b"
  by simp

lemma hex_pairs_show: "hex_pairs (hex_show bs) = Some bs"
proof (induction bs)
  case Nil
  then show ?case by (simp add: hex_show_def)
next
  case (Cons b bs)
  have "unat b div 16 < 16" using unat_byte_lt [of b] by simp
  then have "digit_val (digit_char (unat b div 16)) = Some (unat b div 16)"
    by (rule digit_val_digit_char)
  moreover have "digit_val (digit_char (unat b mod 16)) = Some (unat b mod 16)"
    by (rule digit_val_digit_char) simp
  moreover have "hex_show (b # bs) =
      digit_char (unat b div 16) # digit_char (unat b mod 16) # hex_show bs"
    by (simp add: hex_show_def)
  ultimately show ?case using Cons by (simp add: hex_byte del: of_nat_add of_nat_mult)
qed

lemma hex_show_canonical: "canonical_id (hex_show bs)"
proof (induction bs)
  case Nil
  then show ?case by (simp add: hex_show_def canonical_id_def)
next
  case (Cons b bs)
  have "unat b div 16 < 16" using unat_byte_lt [of b] by simp
  then have "is_digit 16 (digit_char (unat b div 16))" by (intro digit_char_is_digit) simp_all
  moreover have "is_digit 16 (digit_char (unat b mod 16))"
    by (intro digit_char_is_digit) simp_all
  ultimately show ?case using Cons by (simp add: hex_show_def canonical_id_def)
qed

lemma hex_show_no_sep: "CHR ''/'' \<notin> set (hex_show bs)"
  using hex_show_canonical [of bs] is_digit_not_sep
  by (auto simp: canonical_id_def list_all_iff)

lemma hex_show_pairs: "canonical_id v \<Longrightarrow> \<exists>bs. hex_pairs v = Some bs \<and> hex_show bs = v"
proof (induction v rule: hex_pairs.induct)
  case 1
  then show ?case by (simp add: hex_show_def)
next
  case (2 a)
  then show ?case by (simp add: canonical_id_def)
next
  case (3 a b cs)
  from "3.prems" have da: "is_digit 16 a" and db: "is_digit 16 b" and c: "canonical_id cs"
    by (simp_all add: canonical_id_def)
  from da obtain x where x: "x < 16" "a = digit_char x" using is_digit_char by blast
  from db obtain y where y: "y < 16" "b = digit_char y" using is_digit_char by blast
  from "3.IH" c obtain bs where bs: "hex_pairs cs = Some bs" "hex_show bs = cs" by blast
  let ?b = "of_nat (x * 16 + y) :: byte"
  have "x * 16 + y < 256" using x y by simp
  then have u: "unat ?b = x * 16 + y" by (rule unat_of_nat_byte)
  have "(x * 16 + y) div 16 = x" "(x * 16 + y) mod 16 = y" using y by simp_all
  with u have "hex_show (?b # bs) = a # b # cs"
    using x y bs by (simp add: hex_show_def del: of_nat_add of_nat_mult)
  moreover have "hex_pairs (a # b # cs) = Some (?b # bs)"
    using x y bs by (simp add: digit_val_digit_char)
  ultimately show ?case by blast
qed

section \<open>Binary codec\<close>

text \<open>
  Modelled from the spec: \<open>codec.js\<close> is not among the sources; these definitions follow
  section 4.2 and 4.3 of the spec.

  \<open>sizeForAddr\<close>: a fixed width is returned as its byte count; for a length-prefixed
  value the prefix is decoded and the width of the prefix plus the payload length is
  returned, and a malformed prefix or a length beyond the remaining bytes fails.
\<close>

definition sizeForAddr :: "proto \<Rightarrow> byte list \<Rightarrow> error + nat" where
  "sizeForAddr p rest =
     (case size_policy p of
        Fixed bits \<Rightarrow> Inr (bits div 8)
      | NoValue \<Rightarrow> Inr 0
      | VarLen \<Rightarrow>
          (case varint_decode rest of
             None \<Rightarrow> Inl InvalidAddress
           | Some (len, n) \<Rightarrow>
               if length rest < n + len then Inl InvalidAddress else Inr (n + len)))"

text \<open>
  Modelled from the spec: \<open>toTuples\<close> (\<open>codec.bufferToTuples\<close>), the structural walk. Each step decodes a code, resolves it in the
  registry, measures the value with \<open>sizeForAddr\<close> and slices it; an unknown code, a
  truncated tuple or a length overrun fails with \<open>InvalidAddress\<close>. The raw value of a
  length-prefixed protocol keeps its prefix, as \<open>sizeForAddr\<close> measures it.
\<close>

function bufferToTuples :: "byte list \<Rightarrow> error + (nat \<times> byte list) list" where
  "bufferToTuples buf =
     (if buf = [] then Inr []
      else (case varint_decode buf of
              None \<Rightarrow> Inl InvalidAddress
            | Some (c, n) \<Rightarrow>
                (case protocols c of
                   None \<Rightarrow> Inl InvalidAddress
                 | Some p \<Rightarrow>
                     (case sizeForAddr p (drop n buf) of
                        Inl e \<Rightarrow> Inl e
                      | Inr sz \<Rightarrow>
                          if length buf < n + sz then Inl InvalidAddress
                          else (case bufferToTuples (drop (n + sz) buf) of
                                  Inl e \<Rightarrow> Inl e
                                | Inr ts \<Rightarrow> Inr ((c, take sz (drop n buf)) # ts))))))"
  by pat_completeness auto
termination
  by (relation "measure length") (auto dest: varint_decode_bytes_pos)

declare bufferToTuples.simps [simp del]

text \<open>
  Modelled from the spec: \<open>fromTuples\<close>. Each tuple is written as the varint of its code
  and its raw value.
\<close>

definition tuplesToBuffer :: "(nat \<times> byte list) list \<Rightarrow> byte list" where
  "tuplesToBuffer ts = concat (map (\<lambda>(c, v). varint_encode c @ v) ts)"

text \<open>
  Modelled from the spec: \<open>codec.fromBuffer\<close>. The input is copied and walked; every
  failure of the walk is \<open>InvalidAddress\<close>. Nothing else is checked: the walk accepts
  any varint that decodes to a registered code.
\<close>

definition fromBuffer :: "byte list \<Rightarrow> error + byte list" where
  "fromBuffer buf =
     (case bufferToTuples buf of
        Inl e \<Rightarrow> Inl InvalidAddress
      | Inr ts \<Rightarrow> Inr buf)"

text \<open>
  Modelled from the spec: \<open>codec.bufferToString\<close>. The same walk, each value rendered by \<open>toDisplay\<close> and the segments
  joined as \<open>/name/value\<close>; a protocol without a value gives \<open>/name\<close> alone.
\<close>

fun tuplesToString :: "(nat \<times> byte list) list \<Rightarrow> error + string" where
  "tuplesToString [] = Inr []"
| "tuplesToString ((c, v) # ts) =
     (case protocols c of
        None \<Rightarrow> Inl InvalidAddress
      | Some p \<Rightarrow>
          if size_policy p = NoValue then
            (case tuplesToString ts of
               Inl e \<Rightarrow> Inl e
             | Inr s \<Rightarrow> Inr (CHR ''/'' # name p @ s))
          else
            (case toDisplay p v of
               Inl e \<Rightarrow> Inl e
             | Inr d \<Rightarrow>
                 (case tuplesToString ts of
                    Inl e \<Rightarrow> Inl e
                  | Inr s \<Rightarrow> Inr (CHR ''/'' # name p @ CHR ''/'' # d @ s))))"

definition bufferToString :: "byte list \<Rightarrow> error + string" where
  "bufferToString buf =
     (case bufferToTuples buf of
        Inl e \<Rightarrow> Inl e
      | Inr ts \<Rightarrow> tuplesToString ts)"

text \<open>
  Modelled from the spec: \<open>codec.fromString\<close>. The empty string is the empty address; any other string must start with
  the separator. The rest is split into segments. A name segment is resolved in the
  registry (\<open>UnknownProtocol\<close>); it takes no value, the next segment, or the whole rest
  joined again, by the protocol's arity; a missing value is \<open>InvalidFormat\<close>, a value
  that \<open>toBytes\<close> refuses is \<open>InvalidValue\<close>. Each component is written as the varint
  of the code, the varint of the length for a length-prefixed protocol, and the value.
\<close>

definition emit :: "proto \<Rightarrow> byte list \<Rightarrow> byte list" where
  "emit p bs =
     varint_encode (code p)
       @ (if size_policy p = VarLen then varint_encode (length bs) else []) @ bs"

fun fromSegments :: "string list \<Rightarrow> error + byte list" where
  "fromSegments [] = Inr []"
| "fromSegments (n # rest) =
     (case protocols_byName n of
        None \<Rightarrow> Inl UnknownProtocol
      | Some p \<Rightarrow>
          if size_policy p = NoValue then
            (case fromSegments rest of
               Inl e \<Rightarrow> Inl e
             | Inr bs \<Rightarrow> Inr (varint_encode (code p) @ bs))
          else if path p then
            (if rest = [] then Inl InvalidFormat
             else (case toBytes p (js_join CHR ''/'' rest) of
                     Inl e \<Rightarrow> Inl e
                   | Inr v \<Rightarrow> Inr (emit p v)))
          else
            (case rest of
               [] \<Rightarrow> Inl InvalidFormat
             | v # rest' \<Rightarrow>
                 (case toBytes p v of
                    Inl e \<Rightarrow> Inl e
                  | Inr bs \<Rightarrow>
                      (case fromSegments rest' of
                         Inl e \<Rightarrow> Inl e
                       | Inr bs' \<Rightarrow> Inr (emit p bs @ bs')))))"

definition fromString :: "string \<Rightarrow> error + byte list" where
  "fromString s =
     (case s of
        [] \<Rightarrow> Inr []
      | c # rest \<Rightarrow>
          if c = CHR ''/'' then fromSegments (js_split CHR ''/'' rest)
          else Inl InvalidFormat)"

subsection \<open>Well-formed tuples\<close>

text \<open>
  The invariant of the spec's data model on one tuple: the code resolves in the registry
  and the value has the width of the descriptor (or the length its own prefix states).
\<close>

definition tuple_ok :: "nat \<times> byte list \<Rightarrow> bool" where
  "tuple_ok t =
     (case protocols (fst t) of
        None \<Rightarrow> False
      | Some p \<Rightarrow>
          (case size_policy p of
             Fixed bits \<Rightarrow> length (snd t) = bits div 8
           | NoValue \<Rightarrow> snd t = []
           | VarLen \<Rightarrow>
               (case varint_decode (snd t) of
                  None \<Rightarrow> False
                | Some (len, n) \<Rightarrow> length (snd t) = n + len)))"

lemma bufferToTuples_Nil: "bufferToTuples [] = Inr []"
  by (simp add: bufferToTuples.simps)

lemma bufferToTuples_Inr_cases:
  "bufferToTuples buf = Inr ts \<Longrightarrow>
     (buf = [] \<and> ts = [])
   \<or> (\<exists>c n p sz ts'. buf \<noteq> [] \<and> varint_decode buf = Some (c, n) \<and> protocols c = Some p
         \<and> sizeForAddr p (drop n buf) = Inr sz \<and> n + sz \<le> length buf
         \<and> bufferToTuples (drop (n + sz) buf) = Inr ts'
         \<and> ts = (c, take sz (drop n buf)) # ts')"
  by (subst (asm) bufferToTuples.simps)
     (auto split: if_splits option.splits sum.splits)

text \<open>What the walk slices off is a well-formed tuple, whatever the size policy.\<close>

lemma sizeForAddr_ok:
  assumes "protocols c = Some p" "sizeForAddr p rest = Inr sz" "sz \<le> length rest"
  shows "tuple_ok (c, take sz rest)"
proof (cases "size_policy p")
  case (Fixed bits)
  with assms show ?thesis by (simp add: tuple_ok_def sizeForAddr_def)
next
  case NoValue
  with assms show ?thesis by (simp add: tuple_ok_def sizeForAddr_def)
next
  case VarLen
  with assms(2) obtain len n where d: "varint_decode rest = Some (len, n)" and sz: "sz = n + len"
    by (auto simp: sizeForAddr_def split: option.splits if_splits)
  from varint_decode_take [OF d, of sz] sz
  have "varint_decode (take sz rest) = Some (len, n)" by simp
  with assms(1,3) VarLen sz show ?thesis by (simp add: tuple_ok_def)
qed

lemma bufferToTuples_ok: "bufferToTuples buf = Inr ts \<Longrightarrow> list_all tuple_ok ts"
proof (induction ts arbitrary: buf)
  case Nil
  then show ?case by simp
next
  case (Cons t ts)
  from bufferToTuples_Inr_cases [OF Cons.prems]
  obtain c n p sz where h: "varint_decode buf = Some (c, n)" "protocols c = Some p"
      "sizeForAddr p (drop n buf) = Inr sz" "n + sz \<le> length buf"
      "bufferToTuples (drop (n + sz) buf) = Inr ts" "t = (c, take sz (drop n buf))"
    by auto
  from h(4) have "sz \<le> length (drop n buf)" by simp
  from sizeForAddr_ok [OF h(2,3) this] have "tuple_ok t" unfolding h(6) .
  with Cons.IH [OF h(5)] show ?case by simp
qed

lemma tuplesToBuffer_simps:
  "tuplesToBuffer [] = []"
  "tuplesToBuffer ((c, v) # ts) = varint_encode c @ v @ tuplesToBuffer ts"
  by (simp_all add: tuplesToBuffer_def)

lemma tuplesToBuffer_append:
  "tuplesToBuffer (ts @ us) = tuplesToBuffer ts @ tuplesToBuffer us"
  by (simp add: tuplesToBuffer_def)

lemma tuple_ok_size:
  assumes "tuple_ok (c, v)"
  shows "\<exists>p. protocols c = Some p \<and> sizeForAddr p (v @ rest) = Inr (length v)"
proof -
  from assms obtain p where p: "protocols c = Some p"
    by (auto simp: tuple_ok_def split: option.splits)
  show ?thesis
  proof (cases "size_policy p")
    case (Fixed bits)
    with assms p show ?thesis by (simp add: tuple_ok_def sizeForAddr_def)
  next
    case NoValue
    with assms p show ?thesis by (simp add: tuple_ok_def sizeForAddr_def)
  next
    case VarLen
    with assms p obtain len n where d: "varint_decode v = Some (len, n)"
      and l: "length v = n + len"
      by (auto simp: tuple_ok_def split: option.splits)
    from varint_decode_append [OF d] have "varint_decode (v @ rest) = Some (len, n)" .
    with p VarLen l show ?thesis by (simp add: sizeForAddr_def)
  qed
qed

lemma bufferToTuples_step:
  assumes "tuple_ok (c, v)"
  shows "bufferToTuples (varint_encode c @ v @ rest) =
           (case bufferToTuples rest of Inl e \<Rightarrow> Inl e | Inr ts \<Rightarrow> Inr ((c, v) # ts))"
proof -
  let ?e = "varint_encode c"
  have dec: "varint_decode (?e @ v @ rest) = Some (c, length ?e)" by (rule varint_decode_encode)
  from tuple_ok_size [OF assms, of rest] obtain p where p: "protocols c = Some p"
    and sz: "sizeForAddr p (v @ rest) = Inr (length v)" by blast
  show ?thesis
    by (subst bufferToTuples.simps)
       (simp add: dec p sz varint_encode_nonempty del: varint_decode.simps split: sum.splits)
qed

lemma bufferToTuples_tuplesToBuffer:
  "list_all tuple_ok ts \<Longrightarrow> bufferToTuples (tuplesToBuffer ts) = Inr ts"
proof (induction ts)
  case Nil
  then show ?case by (simp add: tuplesToBuffer_simps bufferToTuples_Nil)
next
  case (Cons t ts)
  obtain c v where t: "t = (c, v)" by (cases t)
  with Cons show ?case
    by (simp add: tuplesToBuffer_simps bufferToTuples_step)
qed

lemma bufferToString_tuplesToBuffer:
  "list_all tuple_ok ts \<Longrightarrow> bufferToString (tuplesToBuffer ts) = tuplesToString ts"
  by (simp add: bufferToString_def bufferToTuples_tuplesToBuffer)

text \<open>Every well-formed tuple can be rendered, so every address that passes the walk can.\<close>

lemma payload_ok:
  "varint_decode v = Some (len, n) \<Longrightarrow> length v = n + len \<Longrightarrow> payload v = Some (drop n v)"
  by (simp add: payload_def)

lemma display_total:
  assumes "tuple_ok (c, v)" "protocols c = Some p" "size_policy p \<noteq> NoValue"
  shows "\<exists>d. toDisplay p v = Inr d"
proof -
  from protocols_cases [OF assms(2)] assms(3)
  consider "c = 4" "p = \<lparr>code = 4, size_policy = Fixed 32, name = ''ip4'', path = False\<rparr>"
    | "c = 6 \<or> c = 17" "code p = c" "size_policy p = Fixed 16"
    | "c = 41" "p = \<lparr>code = 41, size_policy = Fixed 128, name = ''ip6'', path = False\<rparr>"
    | "c = 53 \<or> c = 400 \<or> c = 421" "code p = c" "size_policy p = VarLen"
    by auto
  then show ?thesis
  proof cases
    case 1
    with assms show ?thesis by (simp add: tuple_ok_def toDisplay_def ip4_toDisplay_def)
  next
    case 2
    with assms have "length v = 2" by (auto simp: tuple_ok_def)
    from port_toDisplay_total [OF this] 2 show ?thesis by (auto simp: toDisplay_def)
  next
    case 3
    with assms show ?thesis by (simp add: tuple_ok_def toDisplay_def ip6_toDisplay_def)
  next
    case 4
    with assms obtain len n where "varint_decode v = Some (len, n)" "length v = n + len"
      by (auto simp: tuple_ok_def split: option.splits)
    from payload_ok [OF this] 4 show ?thesis
      by (auto simp: toDisplay_def text_toDisplay_def id_toDisplay_def)
  qed
qed

lemma tuplesToString_total: "list_all tuple_ok ts \<Longrightarrow> \<exists>s. tuplesToString ts = Inr s"
proof (induction ts)
  case Nil
  then show ?case by simp
next
  case (Cons t ts)
  obtain c v where t: "t = (c, v)" by (cases t)
  with Cons.prems have ok: "tuple_ok (c, v)" by simp
  then obtain p where p: "protocols c = Some p"
    by (auto simp: tuple_ok_def split: option.splits)
  from Cons obtain s where s: "tuplesToString ts = Inr s" by auto
  show ?case
  proof (cases "size_policy p = NoValue")
    case True
    with p s show ?thesis unfolding t by simp
  next
    case False
    from display_total [OF ok p False] obtain d where "toDisplay p v = Inr d" by blast
    with p s False show ?thesis unfolding t by simp
  qed
qed

lemma tuplesToString_append:
  "tuplesToString ts = Inr s \<Longrightarrow> tuplesToString us = Inr u \<Longrightarrow>
     tuplesToString (ts @ us) = Inr (s @ u)"
proof (induction ts arbitrary: s)
  case Nil
  then show ?case by simp
next
  case (Cons t ts)
  obtain c v where t: "t = (c, v)" by (cases t)
  from Cons.prems(1) obtain s' where s': "tuplesToString ts = Inr s'"
    unfolding t by (auto split: option.splits if_splits sum.splits)
  from Cons.IH [OF s' Cons.prems(2)] Cons.prems(1) s' show ?case
    unfolding t by (auto split: option.splits if_splits sum.splits)
qed

subsection \<open>The canonical string grammar\<close>

text \<open>
  Modelled from the spec: the grammar \<open>('/' protocolName '/' protocolValue)*\<close>, with the
  arity and the value syntax of the named protocol, every value in its canonical form: a
  protocol without a value is its name alone, a path-like value is the whole rest of the
  string, any other value is one segment.
\<close>

fun canonical_segments :: "string list \<Rightarrow> bool" where
  "canonical_segments [] = True"
| "canonical_segments (n # rest) =
     (case protocols_byName n of
        None \<Rightarrow> False
      | Some p \<Rightarrow>
          if size_policy p = NoValue then canonical_segments rest
          else if path p then rest \<noteq> [] \<and> canonical_value p (js_join CHR ''/'' rest)
          else (case rest of
                  [] \<Rightarrow> False
                | v # rest' \<Rightarrow> canonical_value p v \<and> canonical_segments rest'))"

definition canonical_string :: "string \<Rightarrow> bool" where
  "canonical_string s =
     (case s of
        [] \<Rightarrow> True
      | c # rest \<Rightarrow> c = CHR ''/'' \<and> canonical_segments (js_split CHR ''/'' rest))"

subsection \<open>The tuples of a parsed string\<close>

text \<open>
  For the proofs, the walk of \<open>fromSegments\<close> with the tuples kept apart:
  \<open>raw_value\<close> is the value as the tuple holds it, the payload after its length for a
  length-prefixed protocol, and \<open>segmentsToTuples\<close> returns the tuples whose bytes
  \<open>fromSegments\<close> writes (lemma \<open>fromSegments_tuples\<close>). \<open>path_like\<close> tells a tuple
  of a path-like protocol, \<open>render\<close> writes segments back as a string.
\<close>

definition raw_value :: "proto \<Rightarrow> byte list \<Rightarrow> byte list" where
  "raw_value p bs = (if size_policy p = VarLen then varint_encode (length bs) @ bs else bs)"

fun segmentsToTuples :: "string list \<Rightarrow> error + (nat \<times> byte list) list" where
  "segmentsToTuples [] = Inr []"
| "segmentsToTuples (n # rest) =
     (case protocols_byName n of
        None \<Rightarrow> Inl UnknownProtocol
      | Some p \<Rightarrow>
          if size_policy p = NoValue then
            (case segmentsToTuples rest of
               Inl e \<Rightarrow> Inl e
             | Inr ts \<Rightarrow> Inr ((code p, []) # ts))
          else if path p then
            (if rest = [] then Inl InvalidFormat
             else (case toBytes p (js_join CHR ''/'' rest) of
                     Inl e \<Rightarrow> Inl e
                   | Inr v \<Rightarrow> Inr [(code p, raw_value p v)]))
          else
            (case rest of
               [] \<Rightarrow> Inl InvalidFormat
             | v # rest' \<Rightarrow>
                 (case toBytes p v of
                    Inl e \<Rightarrow> Inl e
                  | Inr bs \<Rightarrow>
                      (case segmentsToTuples rest' of
                         Inl e \<Rightarrow> Inl e
                       | Inr ts \<Rightarrow> Inr ((code p, raw_value p bs) # ts)))))"

definition path_like :: "nat \<times> byte list \<Rightarrow> bool" where
  "path_like t = (case protocols (fst t) of None \<Rightarrow> False | Some p \<Rightarrow> path p)"

definition render :: "string list \<Rightarrow> string" where
  "render segs = concat (map (\<lambda>w. CHR ''/'' # w) segs)"

lemma render_simps:
  "render [] = []"
  "render (w # ws) = CHR ''/'' # w @ render ws"
  by (simp_all add: render_def)

lemma render_append: "render (xs @ ys) = render xs @ render ys"
  by (simp add: render_def)

lemma render_join: "segs \<noteq> [] \<Longrightarrow> render segs = CHR ''/'' # js_join CHR ''/'' segs"
  unfolding render_def
  by (induction "CHR ''/''" segs rule: js_join.induct) auto

lemma render_split: "render (js_split CHR ''/'' r) = CHR ''/'' # r"
  by (simp add: render_join js_split_nonempty js_join_split)

lemma js_split_append2: "js_split c (a @ c # b) = js_split c a @ js_split c b"
proof (induction a)
  case Nil
  then show ?case by simp
next
  case (Cons x xs)
  obtain w ws where ws: "js_split c xs = w # ws"
    using js_split_nonempty [of c xs] by (cases "js_split c xs") auto
  with Cons show ?case by simp
qed

lemma emit_raw: "emit p bs = varint_encode (code p) @ raw_value p bs"
  by (simp add: emit_def raw_value_def)

lemma fromSegments_tuples:
  "fromSegments segs =
     (case segmentsToTuples segs of Inl e \<Rightarrow> Inl e | Inr ts \<Rightarrow> Inr (tuplesToBuffer ts))"
proof (induction segs rule: fromSegments.induct)
  case 1
  show ?case by (simp add: tuplesToBuffer_simps)
next
  case (2 n rest)
  show ?case
  proof (cases "protocols_byName n")
    case None
    then show ?thesis by simp
  next
    case (Some p)
    show ?thesis
    proof (cases "size_policy p = NoValue")
      case True
      with Some "2.IH"(1) show ?thesis
        by (simp add: tuplesToBuffer_simps split: sum.splits)
    next
      case nv: False
      show ?thesis
      proof (cases "path p")
        case True
        with Some nv show ?thesis
          by (simp add: tuplesToBuffer_simps emit_raw split: sum.splits)
      next
        case False
        show ?thesis
        proof (cases rest)
          case Nil
          with Some nv False show ?thesis by simp
        next
          case (Cons v rest')
          show ?thesis
          proof (cases "toBytes p v")
            case (Inl e)
            with Some nv False Cons show ?thesis by simp
          next
            case (Inr bs)
            from "2.IH"(2) [OF Some nv False Cons Inr] Some nv False Cons Inr show ?thesis
              by (simp add: tuplesToBuffer_simps emit_raw split: sum.splits)
          qed
        qed
      qed
    qed
  qed
qed

subsection \<open>Values through both transforms\<close>

text \<open>
  A value \<open>toBytes\<close> accepts gives a well-formed tuple; rendering the tuple gives a
  canonical value, which \<open>toBytes\<close> turns into the same bytes. The rendered value has no
  separator unless the given one has, and a path is rendered as it was given.
\<close>

lemma raw_value_ok:
  "protocols c = Some p \<Longrightarrow> size_policy p = VarLen \<Longrightarrow> tuple_ok (c, raw_value p bs)"
  by (simp add: tuple_ok_def raw_value_def varint_decode_encode)

lemma protocols_byName_kinds:
  "protocols_byName n = Some p \<Longrightarrow>
     (code p = 4 \<and> size_policy p = Fixed 32 \<and> \<not> path p)
   \<or> ((code p = 6 \<or> code p = 17) \<and> size_policy p = Fixed 16 \<and> \<not> path p)
   \<or> (code p = 41 \<and> size_policy p = Fixed 128 \<and> \<not> path p)
   \<or> ((code p = 53 \<or> code p = 400) \<and> size_policy p = VarLen)
   \<or> (code p = 421 \<and> size_policy p = VarLen \<and> \<not> path p)
   \<or> (code p = 480 \<and> size_policy p = NoValue \<and> \<not> path p)"
  by (drule protocols_byName_cases) (elim disjE conjE; simp)

lemma toBytes_normal:
  assumes "protocols_byName n = Some p" "toBytes p v = Inr bs"
  shows "tuple_ok (code p, raw_value p bs)
     \<and> (\<exists>d. toDisplay p (raw_value p bs) = Inr d \<and> canonical_value p d \<and> toBytes p d = Inr bs
            \<and> (CHR ''/'' \<notin> set v \<longrightarrow> CHR ''/'' \<notin> set d) \<and> (path p \<longrightarrow> d = v))"
proof -
  have pc: "protocols (code p) = Some p" using assms(1) by (rule protocols_byName_code)
  from protocols_byName_kinds [OF assms(1)]
  consider "code p = 4" "size_policy p = Fixed 32" "\<not> path p"
    | "code p = 6 \<or> code p = 17" "size_policy p = Fixed 16" "\<not> path p"
    | "code p = 41" "size_policy p = Fixed 128" "\<not> path p"
    | "code p = 53 \<or> code p = 400" "size_policy p = VarLen"
    | "code p = 421" "size_policy p = VarLen" "\<not> path p"
    | "code p = 480"
    by blast
  then show ?thesis
  proof cases
    case 1
    with assms(2) have b: "ip4_toBytes v = Some bs"
      by (simp add: toBytes_def split: option.splits)
    then have l: "length bs = 4" by (rule ip4_toBytes_length)
    then obtain d where d: "ip4_toDisplay bs = Some d" by (simp add: ip4_toDisplay_def)
    from ip4_display_bytes [OF d] ip4_toDisplay_no_sep [OF d] ip4_toDisplay_canonical [OF d] d l
    show ?thesis using 1 pc
      by (simp add: tuple_ok_def raw_value_def toDisplay_def toBytes_def canonical_value_def)
  next
    case 2
    with assms(2) have b: "port_toBytes v = Some bs"
      by (auto simp: toBytes_def split: option.splits)
    then have l: "length bs = 2" by (rule port_toBytes_length)
    then obtain d where d: "port_toDisplay bs = Some d" using port_toDisplay_total by blast
    from port_display_bytes [OF d] port_toDisplay_no_sep [OF d] port_toDisplay_canonical [OF d] d l
    show ?thesis using 2 pc
      by (auto simp: tuple_ok_def raw_value_def toDisplay_def toBytes_def canonical_value_def)
  next
    case 3
    with assms(2) have b: "ip6_toBytes v = Some bs"
      by (simp add: toBytes_def split: option.splits)
    then have l: "length bs = 16" by (rule ip6_toBytes_length)
    then obtain d where d: "ip6_toDisplay bs = Some d" by (simp add: ip6_toDisplay_def)
    from ip6_display_bytes [OF d] ip6_toDisplay_no_sep [OF d] ip6_toDisplay_canonical [OF d] d l
    show ?thesis using 3 pc
      by (simp add: tuple_ok_def raw_value_def toDisplay_def toBytes_def canonical_value_def)
  next
    case 4
    with assms(2) have b: "text_toBytes v = Some bs"
      by (auto simp: toBytes_def split: option.splits)
    have ok: "tuple_ok (code p, raw_value p bs)"
      using pc 4(2) by (rule raw_value_ok)
    from text_bytes_display [OF b] b ok show ?thesis using 4
      by (auto simp: raw_value_def toDisplay_def toBytes_def canonical_value_def)
  next
    case 5
    with assms(2) have b: "hex_pairs v = Some bs"
      by (simp add: toBytes_def id_toBytes_def split: option.splits)
    have ok: "tuple_ok (code p, raw_value p bs)"
      using pc 5(2) by (rule raw_value_ok)
    from ok hex_pairs_show [of bs] hex_show_canonical [of bs] hex_show_no_sep [of bs]
    show ?thesis using 5
      by (simp add: raw_value_def toDisplay_def toBytes_def canonical_value_def
            id_toDisplay_def id_toBytes_def payload_prefixed)
  next
    case 6
    with assms(2) show ?thesis by (simp add: toBytes_def)
  qed
qed

lemma canonical_value_roundtrip:
  assumes "protocols_byName n = Some p" "canonical_value p v"
  shows "\<exists>bs. toBytes p v = Inr bs \<and> toDisplay p (raw_value p bs) = Inr v"
proof -
  from protocols_byName_kinds [OF assms(1)]
  consider "code p = 4" "size_policy p = Fixed 32"
    | "code p = 6 \<or> code p = 17" "size_policy p = Fixed 16"
    | "code p = 41" "size_policy p = Fixed 128"
    | "code p = 53 \<or> code p = 400" "size_policy p = VarLen"
    | "code p = 421" "size_policy p = VarLen"
    | "code p = 480"
    by blast
  then show ?thesis
  proof cases
    case 1
    with assms(2) have "canonical_ip4 v" by (simp add: canonical_value_def)
    from ip4_bytes_display [OF this] obtain bs where
      "ip4_toBytes v = Some bs" "ip4_toDisplay bs = Some v" by blast
    with 1 show ?thesis by (simp add: toBytes_def toDisplay_def raw_value_def)
  next
    case 2
    with assms(2) have c: "canonical_port v" by (auto simp: canonical_value_def)
    then obtain k where "canonical_number 10 v" "readNat 10 v = Some k" "k \<le> 65535"
      by (auto simp: canonical_port_def split: option.splits)
    from port_bytes_display [OF this] obtain bs where
      "port_toBytes v = Some bs" "port_toDisplay bs = Some v" by blast
    with 2 show ?thesis by (auto simp: toBytes_def toDisplay_def raw_value_def)
  next
    case 3
    with assms(2) have "canonical_ip6 v" by (simp add: canonical_value_def)
    from ip6_bytes_display [OF this] obtain bs where
      "ip6_toBytes v = Some bs" "ip6_toDisplay bs = Some v" by blast
    with 3 show ?thesis by (simp add: toBytes_def toDisplay_def raw_value_def)
  next
    case 4
    obtain bs where b: "text_toBytes v = Some bs" by (simp add: text_toBytes_def)
    from text_bytes_display [OF b] b 4 show ?thesis
      by (auto simp: toBytes_def toDisplay_def raw_value_def)
  next
    case 5
    with assms(2) have "canonical_id v" by (simp add: canonical_value_def)
    from hex_show_pairs [OF this] obtain bs where "hex_pairs v = Some bs" "hex_show bs = v"
      by blast
    with 5 show ?thesis
      by (simp add: toBytes_def toDisplay_def raw_value_def id_toBytes_def id_toDisplay_def
            payload_prefixed)
  next
    case 6
    with assms(2) show ?thesis by (simp add: canonical_value_def)
  qed
qed

subsection \<open>Strings that parse\<close>

lemma segmentsToTuples_ok: "segmentsToTuples segs = Inr ts \<Longrightarrow> list_all tuple_ok ts"
proof (induction segs arbitrary: ts rule: segmentsToTuples.induct)
  case 1
  then show ?case by simp
next
  case (2 n rest)
  from "2.prems" obtain p where p: "protocols_byName n = Some p"
    by (auto split: option.splits)
  have pc: "protocols (code p) = Some p" using p by (rule protocols_byName_code)
  show ?case
  proof (cases "size_policy p = NoValue")
    case True
    with "2.prems" p obtain ts' where ts': "segmentsToTuples rest = Inr ts'"
      "ts = (code p, []) # ts'" by (auto split: sum.splits)
    from "2.IH"(1) [OF p True ts'(1)] pc True ts'(2) show ?thesis
      by (simp add: tuple_ok_def)
  next
    case nv: False
    show ?thesis
    proof (cases "path p")
      case True
      with "2.prems" p nv obtain bs where bs: "toBytes p (js_join CHR ''/'' rest) = Inr bs"
        "ts = [(code p, raw_value p bs)]" by (auto split: if_splits sum.splits)
      from toBytes_normal [OF p bs(1)] bs(2) show ?thesis by simp
    next
      case False
      with "2.prems" p nv obtain v rest' bs ts' where h: "rest = v # rest'"
        "toBytes p v = Inr bs" "segmentsToTuples rest' = Inr ts'"
        "ts = (code p, raw_value p bs) # ts'"
        by (auto split: list.splits sum.splits)
      from "2.IH"(2) [OF p nv False h(1,2,3)] toBytes_normal [OF p h(2)] h(4)
      show ?thesis by simp
    qed
  qed
qed

text \<open>A canonical string parses, and its tuples render as the string itself.\<close>

lemma segmentsToTuples_canonical:
  "canonical_segments segs \<Longrightarrow>
     \<exists>ts. segmentsToTuples segs = Inr ts \<and> tuplesToString ts = Inr (render segs)"
proof (induction segs rule: canonical_segments.induct)
  case 1
  show ?case by (simp add: render_simps)
next
  case (2 n rest)
  from "2.prems" obtain p where p: "protocols_byName n = Some p"
    by (auto split: option.splits)
  have pc: "protocols (code p) = Some p" using p by (rule protocols_byName_code)
  have nm: "name p = n" using p by (rule protocols_byName_name)
  show ?case
  proof (cases "size_policy p = NoValue")
    case True
    with "2.prems" p have "canonical_segments rest" by simp
    from "2.IH"(1) [OF p True this] obtain ts where
      "segmentsToTuples rest = Inr ts" "tuplesToString ts = Inr (render rest)" by blast
    with p pc nm True show ?thesis by (simp add: render_simps)
  next
    case nv: False
    show ?thesis
    proof (cases "path p")
      case True
      with "2.prems" p nv have r: "rest \<noteq> []" "canonical_value p (js_join CHR ''/'' rest)"
        by simp_all
      from canonical_value_roundtrip [OF p r(2)] obtain bs where
        "toBytes p (js_join CHR ''/'' rest) = Inr bs"
        "toDisplay p (raw_value p bs) = Inr (js_join CHR ''/'' rest)" by blast
      with p pc nm nv True r(1) show ?thesis
        by (simp add: render_simps render_join)
    next
      case False
      with "2.prems" p nv obtain v rest' where h: "rest = v # rest'"
        "canonical_value p v" "canonical_segments rest'"
        by (auto split: list.splits)
      from "2.IH"(2) [OF p nv False h(1,3)] obtain ts where
        ts: "segmentsToTuples rest' = Inr ts" "tuplesToString ts = Inr (render rest')" by blast
      from canonical_value_roundtrip [OF p h(2)] obtain bs where
        "toBytes p v = Inr bs" "toDisplay p (raw_value p bs) = Inr v" by blast
      with p pc nm nv False h(1) ts show ?thesis by (simp add: render_simps)
    qed
  qed
qed

text \<open>
  Whatever string parses, its tuples are the tuples of a canonical string, and rendering
  them gives that string.
\<close>

lemma segmentsToTuples_normal:
  "segmentsToTuples segs = Inr ts \<Longrightarrow> \<forall>w\<in>set segs. CHR ''/'' \<notin> set w \<Longrightarrow>
     \<exists>segs'. canonical_segments segs' \<and> (\<forall>w\<in>set segs'. CHR ''/'' \<notin> set w)
        \<and> length segs' = length segs
        \<and> segmentsToTuples segs' = Inr ts \<and> tuplesToString ts = Inr (render segs')"
proof (induction segs arbitrary: ts rule: segmentsToTuples.induct)
  case 1
  then show ?case by (simp add: render_simps)
next
  case (2 n rest)
  from "2.prems" obtain p where p: "protocols_byName n = Some p"
    by (auto split: option.splits)
  have pc: "protocols (code p) = Some p" using p by (rule protocols_byName_code)
  have nm: "name p = n" using p by (rule protocols_byName_name)
  from "2.prems"(2) have nn: "CHR ''/'' \<notin> set n" and nr: "\<forall>w\<in>set rest. CHR ''/'' \<notin> set w"
    by simp_all
  show ?case
  proof (cases "size_policy p = NoValue")
    case True
    with "2.prems" p obtain ts' where ts': "segmentsToTuples rest = Inr ts'"
      "ts = (code p, []) # ts'" by (auto split: sum.splits)
    from "2.IH"(1) [OF p True ts'(1) nr] obtain segs' where
      s: "canonical_segments segs'" "\<forall>w\<in>set segs'. CHR ''/'' \<notin> set w"
         "length segs' = length rest"
         "segmentsToTuples segs' = Inr ts'" "tuplesToString ts' = Inr (render segs')" by blast
    show ?thesis
      by (rule exI [of _ "n # segs'"]) (use p pc nm nn True ts'(2) s in \<open>simp add: render_simps\<close>)
  next
    case nv: False
    show ?thesis
    proof (cases "path p")
      case True
      with "2.prems" p nv obtain bs where r: "rest \<noteq> []"
        and bs: "toBytes p (js_join CHR ''/'' rest) = Inr bs" "ts = [(code p, raw_value p bs)]"
        by (auto split: if_splits sum.splits)
      from toBytes_normal [OF p bs(1)] True
      have d: "toDisplay p (raw_value p bs) = Inr (js_join CHR ''/'' rest)"
        "canonical_value p (js_join CHR ''/'' rest)" by auto
      show ?thesis
        by (rule exI [of _ "n # rest"])
           (use p pc nm nn nr nv True r bs d in \<open>simp add: render_simps render_join\<close>)
    next
      case False
      with "2.prems" p nv obtain v rest' bs ts' where h: "rest = v # rest'"
        "toBytes p v = Inr bs" "segmentsToTuples rest' = Inr ts'"
        "ts = (code p, raw_value p bs) # ts'"
        by (auto split: list.splits sum.splits)
      from nr h(1) have nv': "CHR ''/'' \<notin> set v" and nr': "\<forall>w\<in>set rest'. CHR ''/'' \<notin> set w"
        by simp_all
      from "2.IH"(2) [OF p nv False h(1,2,3) nr'] obtain segs' where
        s: "canonical_segments segs'" "\<forall>w\<in>set segs'. CHR ''/'' \<notin> set w"
           "length segs' = length rest'"
           "segmentsToTuples segs' = Inr ts'" "tuplesToString ts' = Inr (render segs')" by blast
      from toBytes_normal [OF p h(2)] nv' obtain d where
        d: "toDisplay p (raw_value p bs) = Inr d" "canonical_value p d" "toBytes p d = Inr bs"
           "CHR ''/'' \<notin> set d" by auto
      show ?thesis
        by (rule exI [of _ "n # d # segs'"])
           (use p pc nm nn nv False h(1,4) s d in \<open>simp add: render_simps\<close>)
    qed
  qed
qed

text \<open>
  Canonical strings are closed under concatenation: a path-like value at the end of the
  first takes the second in, and every text is a canonical path.
\<close>

lemma canonical_segments_append:
  "canonical_segments a \<Longrightarrow> canonical_segments b \<Longrightarrow> canonical_segments (a @ b)"
proof (induction a rule: canonical_segments.induct)
  case 1
  then show ?case by simp
next
  case (2 n rest)
  from "2.prems" obtain p where p: "protocols_byName n = Some p"
    by (auto split: option.splits)
  show ?case
  proof (cases "size_policy p = NoValue")
    case True
    with "2.prems" "2.IH"(1) [OF p True] p show ?thesis by simp
  next
    case nv: False
    show ?thesis
    proof (cases "path p")
      case True
      with protocols_byName_kinds [OF p] have "code p = 53 \<or> code p = 400" by auto
      then have "canonical_value p w" for w by (auto simp: canonical_value_def)
      with "2.prems" p nv True show ?thesis by simp
    next
      case False
      with "2.prems" p nv obtain v rest' where h: "rest = v # rest'"
        "canonical_value p v" "canonical_segments rest'"
        by (auto split: list.splits)
      from "2.IH"(2) [OF p nv False h(1,3) "2.prems"(2)] p nv False h show ?thesis by simp
    qed
  qed
qed

text \<open>
  When the first string has no path-like component the tuples of the concatenation are
  the tuples of the two strings, in order.
\<close>

lemma segmentsToTuples_append:
  "segmentsToTuples a = Inr ta \<Longrightarrow> segmentsToTuples b = Inr tb \<Longrightarrow>
     \<not> list_ex path_like ta \<Longrightarrow> segmentsToTuples (a @ b) = Inr (ta @ tb)"
proof (induction a arbitrary: ta rule: segmentsToTuples.induct)
  case 1
  then show ?case by simp
next
  case (2 n rest)
  from "2.prems" obtain p where p: "protocols_byName n = Some p"
    by (auto split: option.splits)
  have pc: "protocols (code p) = Some p" using p by (rule protocols_byName_code)
  show ?case
  proof (cases "size_policy p = NoValue")
    case True
    with "2.prems" p obtain ts' where ts': "segmentsToTuples rest = Inr ts'"
      "ta = (code p, []) # ts'" by (auto split: sum.splits)
    from "2.prems"(3) ts'(2) have "\<not> list_ex path_like ts'" by simp
    from "2.IH"(1) [OF p True ts'(1) "2.prems"(2) this] p True ts'(2) show ?thesis by simp
  next
    case nv: False
    show ?thesis
    proof (cases "path p")
      case True
      with "2.prems"(1) p nv obtain bs where "ta = [(code p, raw_value p bs)]"
        by (auto split: if_splits sum.splits)
      with "2.prems"(3) pc True show ?thesis by (simp add: path_like_def)
    next
      case False
      with "2.prems" p nv obtain v rest' bs ts' where h: "rest = v # rest'"
        "toBytes p v = Inr bs" "segmentsToTuples rest' = Inr ts'"
        "ta = (code p, raw_value p bs) # ts'"
        by (auto split: list.splits sum.splits)
      from "2.prems"(3) h(4) have "\<not> list_ex path_like ts'" by simp
      from "2.IH"(2) [OF p nv False h(1,2,3) "2.prems"(2) this] p nv False h show ?thesis
        by simp
    qed
  qed
qed

subsection \<open>What \<open>fromString\<close> accepts and writes\<close>

text \<open>
  The tuples \<open>fromString\<close> writes: the same cases as \<open>fromString\<close>, over
  \<open>segmentsToTuples\<close> (lemma \<open>fromString_tuples\<close>).
\<close>

definition string_tuples :: "string \<Rightarrow> error + (nat \<times> byte list) list" where
  "string_tuples s =
     (case s of
        [] \<Rightarrow> Inr []
      | c # rest \<Rightarrow>
          if c = CHR ''/'' then segmentsToTuples (js_split CHR ''/'' rest)
          else Inl InvalidFormat)"

lemma fromString_tuples:
  "fromString s =
     (case string_tuples s of Inl e \<Rightarrow> Inl e | Inr ts \<Rightarrow> Inr (tuplesToBuffer ts))"
  by (cases s) (simp_all add: fromString_def string_tuples_def fromSegments_tuples
      tuplesToBuffer_simps)

lemma string_tuples_ok: "string_tuples s = Inr ts \<Longrightarrow> list_all tuple_ok ts"
  by (cases s) (auto simp: string_tuples_def split: if_splits dest: segmentsToTuples_ok)

lemma fromString_Inr:
  "fromString s = Inr b \<Longrightarrow>
     \<exists>ts. string_tuples s = Inr ts \<and> list_all tuple_ok ts \<and> b = tuplesToBuffer ts"
  using string_tuples_ok [of s]
  by (auto simp: fromString_tuples split: sum.splits)

lemma string_tuples_canonical:
  "canonical_string s \<Longrightarrow> \<exists>ts. string_tuples s = Inr ts \<and> tuplesToString ts = Inr s"
proof (cases s)
  case Nil
  then show ?thesis by (simp add: string_tuples_def)
next
  case (Cons c r)
  assume "canonical_string s"
  with Cons have c: "c = CHR ''/''" and segs: "canonical_segments (js_split CHR ''/'' r)"
    by (simp_all add: canonical_string_def)
  from segmentsToTuples_canonical [OF segs] Cons c show ?thesis
    by (simp add: string_tuples_def render_split)
qed

lemma string_tuples_normal:
  assumes "string_tuples s = Inr ts"
  shows "\<exists>s'. canonical_string s' \<and> string_tuples s' = Inr ts \<and> tuplesToString ts = Inr s'"
proof (cases s)
  case Nil
  with assms show ?thesis
    by (intro exI [of _ "[]"]) (auto simp: string_tuples_def canonical_string_def)
next
  case (Cons c r)
  let ?segs = "js_split CHR ''/'' r"
  from assms Cons have c: "c = CHR ''/''" and t: "segmentsToTuples ?segs = Inr ts"
    by (auto simp: string_tuples_def split: if_splits)
  have "\<forall>w\<in>set ?segs. CHR ''/'' \<notin> set w" using js_split_parts_no_sep by blast
  from segmentsToTuples_normal [OF t this] obtain segs' where
    s: "canonical_segments segs'" "\<forall>w\<in>set segs'. CHR ''/'' \<notin> set w"
       "length segs' = length ?segs"
       "segmentsToTuples segs' = Inr ts" "tuplesToString ts = Inr (render segs')" by blast
  from s(3) have ne: "segs' \<noteq> []" using js_split_nonempty [of "CHR ''/''" r] by auto
  have sp: "js_split CHR ''/'' (js_join CHR ''/'' segs') = segs'"
    using ne s(2) by (rule js_split_join)
  show ?thesis
    by (rule exI [of _ "render segs'"])
       (use s sp ne in \<open>simp add: render_join canonical_string_def string_tuples_def\<close>)
qed

lemma canonical_string_append:
  assumes "canonical_string a" "canonical_string b"
  shows "canonical_string (a @ b)"
proof (cases a)
  case Nil
  with assms show ?thesis by simp
next
  case a: (Cons c ra)
  show ?thesis
  proof (cases b)
    case Nil
    with assms show ?thesis by simp
  next
    case (Cons d rb)
    with a assms have "c = CHR ''/''" "d = CHR ''/''"
      "canonical_segments (js_split CHR ''/'' ra)" "canonical_segments (js_split CHR ''/'' rb)"
      by (simp_all add: canonical_string_def)
    with a Cons show ?thesis
      by (simp add: canonical_string_def js_split_append2 canonical_segments_append)
  qed
qed

lemma string_tuples_append:
  assumes "canonical_string a" "string_tuples a = Inr ta" "string_tuples b = Inr tb"
    "\<not> list_ex path_like ta"
  shows "string_tuples (a @ b) = Inr (ta @ tb)"
proof (cases a)
  case Nil
  with assms show ?thesis by (simp add: string_tuples_def)
next
  case a: (Cons c ra)
  with assms(1,2) have c: "c = CHR ''/''" and ta: "segmentsToTuples (js_split CHR ''/'' ra) = Inr ta"
    by (simp_all add: canonical_string_def string_tuples_def)
  show ?thesis
  proof (cases b)
    case Nil
    with assms show ?thesis by (simp add: string_tuples_def)
  next
    case (Cons d rb)
    with assms(3) have d: "d = CHR ''/''" and tb: "segmentsToTuples (js_split CHR ''/'' rb) = Inr tb"
      by (auto simp: string_tuples_def split: if_splits)
    from segmentsToTuples_append [OF ta tb assms(4)] a c Cons d show ?thesis
      by (simp add: string_tuples_def js_split_append2)
  qed
qed

section \<open>The Multiaddr class of \<open>src/index.js\<close>\<close>

record multiaddr =
  buffer :: "byte list"

text \<open>
  The values the constructor can be called with. \<open>JUndefined\<close> is also the call with no
  argument; \<open>JObject\<close> is any other object (truthy, and neither a Buffer, a string nor an
  object with \<open>buffer\<close>, \<open>protos\<close> and \<open>protoCodes\<close>).
\<close>

datatype js_value =
    JUndefined
  | JNull
  | JBool bool
  | JNumber int
  | JNaN
  | JString string
  | JBuffer "byte list"
  | JMultiaddr multiaddr
  | JObject

text \<open>\<open>!addr\<close>: the values JavaScript takes for false.\<close>

fun falsy :: "js_value \<Rightarrow> bool" where
  "falsy JUndefined = True"
| "falsy JNull = True"
| "falsy (JBool b) = (\<not> b)"
| "falsy (JNumber n) = (n = 0)"
| "falsy JNaN = True"
| "falsy (JString s) = (s = [])"
| "falsy (JBuffer b) = False"
| "falsy (JMultiaddr m) = False"
| "falsy JObject = False"

text \<open>
  The constructor: a falsy argument becomes the empty string; a Buffer and another
  Multiaddr go through \<open>codec.fromBuffer\<close>, a string through \<open>codec.fromString\<close>; anything
  else is refused.
\<close>

definition Multiaddr :: "js_value \<Rightarrow> error + multiaddr" where
  "Multiaddr addr0 =
     (let addr = (if falsy addr0 then JString [] else addr0)
      in case addr of
           JBuffer b \<Rightarrow> map_sum id (\<lambda>bs. \<lparr>buffer = bs\<rparr>) (fromBuffer b)
         | JString s \<Rightarrow> map_sum id (\<lambda>bs. \<lparr>buffer = bs\<rparr>) (fromString s)
         | JMultiaddr m \<Rightarrow> map_sum id (\<lambda>bs. \<lparr>buffer = bs\<rparr>) (fromBuffer (buffer m))
         | _ \<Rightarrow> Inl BadArgument)"

definition toString :: "multiaddr \<Rightarrow> error + string" where
  "toString m = bufferToString (buffer m)"

text \<open>
  \<open>toOptions\<close>: the fields of the split string, by position; a missing field is
  \<open>undefined\<close>.
\<close>

record options =
  family :: string
  host :: "string option"
  transport :: "string option"
  port :: "string option"

definition toOptions :: "multiaddr \<Rightarrow> error + options" where
  "toOptions m =
     (case toString m of
        Inl e \<Rightarrow> Inl e
      | Inr s \<Rightarrow>
          (let parsed = js_split CHR ''/'' s
           in Inr \<lparr>family = (if js_index parsed 1 = Some ''ip4'' then ''ipv4'' else ''ipv6''),
                   host = js_index parsed 2,
                   transport = js_index parsed 3,
                   port = js_index parsed 4\<rparr>))"

text \<open>
  \<open>protoCodes\<close>: the \<open>while\<close> loop over the index \<open>i\<close>, with \<open>codes\<close> as accumulator.
  \<open>varint.decode\<close> reads at least one byte, so \<open>i\<close> grows in every round. The registry
  lookup \<open>protocols(code)\<close> is the parameter \<open>look\<close>: the registry of the module, or the
  registry's objects read from a store (see the section on \<open>protos\<close> and aliasing).
\<close>

function protoCodes_loop ::
  "(nat \<Rightarrow> proto option) \<Rightarrow> byte list \<Rightarrow> nat \<Rightarrow> nat list \<Rightarrow> error + nat list" where
  "protoCodes_loop look buf i codes =
     (if i < length buf then
        (case varint_decode (drop i buf) of
           None \<Rightarrow> Inl RangeError
         | Some (c, n) \<Rightarrow>
             (case look c of
                None \<Rightarrow> Inl UnknownProtocol
              | Some p \<Rightarrow>
                  (case sizeForAddr p (drop (i + n) buf) of
                     Inl e \<Rightarrow> Inl e
                   | Inr sz \<Rightarrow> protoCodes_loop look buf (i + (sz + n)) (codes @ [c]))))
      else Inr codes)"
  by pat_completeness auto
termination
  by (relation "measure (\<lambda>(look, buf, i, codes). length buf - i)")
     (auto dest: varint_decode_bytes_pos)

declare protoCodes_loop.simps [simp del]

definition protoCodes :: "multiaddr \<Rightarrow> error + nat list" where
  "protoCodes m = protoCodes_loop protocols (buffer m) 0 []"

text \<open>\<open>map\<close> of a function that may throw: the first failure is the result.\<close>

fun map_throw :: "('a \<Rightarrow> error + 'b) \<Rightarrow> 'a list \<Rightarrow> error + 'b list" where
  "map_throw f [] = Inr []"
| "map_throw f (x # xs) =
     (case f x of
        Inl e \<Rightarrow> Inl e
      | Inr y \<Rightarrow> (case map_throw f xs of Inl e \<Rightarrow> Inl e | Inr ys \<Rightarrow> Inr (y # ys)))"

definition protocols_or_throw :: "nat \<Rightarrow> error + proto" where
  "protocols_or_throw c = (case protocols c of None \<Rightarrow> Inl UnknownProtocol | Some p \<Rightarrow> Inr p)"

text \<open>\<open>protos\<close>, as the list of the descriptors' contents (the copies are values here).\<close>

definition protos :: "multiaddr \<Rightarrow> error + proto list" where
  "protos m =
     (case protoCodes m of
        Inl e \<Rightarrow> Inl e
      | Inr codes \<Rightarrow> map_throw protocols_or_throw codes)"

definition protoNames :: "multiaddr \<Rightarrow> error + string list" where
  "protoNames m = map_sum id (map name) (protos m)"

definition tuples :: "multiaddr \<Rightarrow> error + (nat \<times> byte list) list" where
  "tuples m = bufferToTuples (buffer m)"

text \<open>
  \<open>encapsulate\<close> builds an address from its argument, then one from the two strings put
  together. \<open>decapsulate\<close> renders its argument first, then \<open>this\<close>, and throws when
  \<open>lastIndexOf\<close> is negative.
\<close>

definition encapsulate :: "multiaddr \<Rightarrow> js_value \<Rightarrow> error + multiaddr" where
  "encapsulate this addr0 =
     (case Multiaddr addr0 of
        Inl e \<Rightarrow> Inl e
      | Inr addr \<Rightarrow>
          (case toString this of
             Inl e \<Rightarrow> Inl e
           | Inr s \<Rightarrow>
               (case toString addr of
                  Inl e \<Rightarrow> Inl e
                | Inr t \<Rightarrow> Multiaddr (JString (s @ t)))))"

definition decapsulate :: "multiaddr \<Rightarrow> multiaddr \<Rightarrow> error + multiaddr" where
  "decapsulate this addr0 =
     (case toString addr0 of
        Inl e \<Rightarrow> Inl e
      | Inr addr \<Rightarrow>
          (case toString this of
             Inl e \<Rightarrow> Inl e
           | Inr s \<Rightarrow>
               (case lastIndexOf s addr of
                  None \<Rightarrow> Inl NotContained
                | Some i \<Rightarrow> Multiaddr (JString (take i s)))))"

definition equals :: "multiaddr \<Rightarrow> multiaddr \<Rightarrow> bool" where
  "equals this addr = (buffer this = buffer addr)"

text \<open>\<open>isThinWaistAddress(addr)\<close>: the optional argument replaces \<open>this\<close> when given.\<close>

definition isThinWaistAddress :: "multiaddr \<Rightarrow> multiaddr option \<Rightarrow> error + bool" where
  "isThinWaistAddress this addr =
     (case protos (case addr of None \<Rightarrow> this | Some a \<Rightarrow> a) of
        Inl e \<Rightarrow> Inl e
      | Inr ps \<Rightarrow>
          Inr (if length ps \<noteq> 2 then False
               else if code (ps ! 0) \<noteq> 4 \<and> code (ps ! 0) \<noteq> 41 then False
               else if code (ps ! 1) \<noteq> 6 \<and> code (ps ! 1) \<noteq> 17 then False
               else True))"

text \<open>
  \<open>nodeAddress\<close>: the family from the first code, the address and the port from the
  second and the fourth field of the string split after its leading separator.
\<close>

record node_address =
  na_family :: string
  na_address :: "string option"
  na_port :: "string option"

definition nodeAddress :: "multiaddr \<Rightarrow> error + node_address" where
  "nodeAddress this =
     (case isThinWaistAddress this None of
        Inl e \<Rightarrow> Inl e
      | Inr thin \<Rightarrow>
          if \<not> thin then Inl NotThinWaist
          else (case protoCodes this of
                  Inl e \<Rightarrow> Inl e
                | Inr codes \<Rightarrow>
                    (case toString this of
                       Inl e \<Rightarrow> Inl e
                     | Inr s \<Rightarrow>
                         (let parts = drop 1 (js_split CHR ''/'' s)
                          in Inr \<lparr>na_family =
                                    (if js_index codes 0 = Some 41 then ''IPv6'' else ''IPv4''),
                                  na_address = js_index parts 1,
                                  na_port = js_index parts 3\<rparr>))))"

section \<open>The literal scenarios of the spec\<close>

lemma example_port_toBytes: "port_toBytes ''4001'' = Some [0x0f, 0xa1]"
  by (simp add: port_toBytes_def readNat_def digit_val_def digit_table_def)

lemma example_ip4_toBytes: "ip4_toBytes ''127.0.0.1'' = Some [0x7f, 0x00, 0x00, 0x01]"
  by (simp add: ip4_toBytes_def octet_def readNat_def digit_val_def digit_table_def)

lemma example_fromString:
  "fromString ''/ip4/127.0.0.1/tcp/4001''
     = Inr [0x04, 0x7f, 0x00, 0x00, 0x01, 0x06, 0x0f, 0xa1]"
  by (simp add: fromString_def protocols_byName_table example_ip4_toBytes
        example_port_toBytes toBytes_def emit_def varint_encode_small)

lemma example_Multiaddr:
  "Multiaddr (JString ''/ip4/127.0.0.1/tcp/4001'')
     = Inr \<lparr>buffer = [0x04, 0x7f, 0x00, 0x00, 0x01, 0x06, 0x0f, 0xa1]\<rparr>"
  by (simp add: Multiaddr_def example_fromString)

lemma example_tuples:
  "bufferToTuples [0x04, 0x7f, 0x00, 0x00, 0x01, 0x06, 0x0f, 0xa1]
     = Inr [(4, [0x7f, 0x00, 0x00, 0x01]), (6, [0x0f, 0xa1])]"
  by (simp add: bufferToTuples.simps protocols_table sizeForAddr_def)

lemma example_protoCodes:
  "protoCodes \<lparr>buffer = [0x04, 0x7f, 0x00, 0x00, 0x01, 0x06, 0x0f, 0xa1]\<rparr> = Inr [4, 6]"
  by (simp add: protoCodes_def protoCodes_loop.simps protocols_table sizeForAddr_def)

lemma example_showNat:
  "showNat 10 127 = ''127''" "showNat 10 0 = ''0''" "showNat 10 (Suc 0) = ''1''"
  "showNat 10 1 = ''1''" "showNat 10 4001 = ''4001''"
  by (simp_all add: showNat_digit showNat_step digit_char_eval)

lemma example_toString:
  "toString \<lparr>buffer = [0x04, 0x7f, 0x00, 0x00, 0x01, 0x06, 0x0f, 0xa1]\<rparr>
     = Inr ''/ip4/127.0.0.1/tcp/4001''"
  by (simp add: toString_def bufferToString_def example_tuples protocols_table
        toDisplay_def ip4_toDisplay_def port_toDisplay_def example_showNat)

text \<open>
  Claim C7. The address built from the string \<open>/ip4/127.0.0.1/tcp/4001\<close> has the bytes
  \<open>04 7f 00 00 01 06 0f a1\<close>: the one-byte varint of the code 4 with the four bytes of
  the IPv4 value, then the one-byte varint of the code 6 with the port 4001 = 0x0fa1 in
  two bytes, big-endian. Its protocol codes are \<open>[4, 6]\<close> and its protocol names are
  \<open>[ip4, tcp]\<close>.
\<close>

theorem C7_ip4_tcp_bytes_codes_names:
  "Multiaddr (JString ''/ip4/127.0.0.1/tcp/4001'')
     = Inr \<lparr>buffer = [0x04, 0x7f, 0x00, 0x00, 0x01, 0x06, 0x0f, 0xa1]\<rparr>
   \<and> varint_encode 4 = [0x04] \<and> varint_encode 6 = [0x06]
   \<and> tuples \<lparr>buffer = [0x04, 0x7f, 0x00, 0x00, 0x01, 0x06, 0x0f, 0xa1]\<rparr>
       = Inr [(4, [0x7f, 0x00, 0x00, 0x01]), (6, [0x0f, 0xa1])]
   \<and> port_toBytes ''4001'' = Some [0x0f, 0xa1]
   \<and> protoCodes \<lparr>buffer = [0x04, 0x7f, 0x00, 0x00, 0x01, 0x06, 0x0f, 0xa1]\<rparr> = Inr [4, 6]
   \<and> protoNames \<lparr>buffer = [0x04, 0x7f, 0x00, 0x00, 0x01, 0x06, 0x0f, 0xa1]\<rparr>
       = Inr [''ip4'', ''tcp'']"
proof -
  have names:
    "protoNames \<lparr>buffer = [0x04, 0x7f, 0x00, 0x00, 0x01, 0x06, 0x0f, 0xa1]\<rparr>
       = Inr [''ip4'', ''tcp'']"
    by (simp add: protoNames_def protos_def example_protoCodes protocols_or_throw_def
          protocols_table)
  show ?thesis
    by (simp add: example_Multiaddr varint_encode_small tuples_def example_tuples
          example_port_toBytes example_protoCodes names)
qed

text \<open>
  Claim C8. The options view of the address \<open>/ip4/127.0.0.1/tcp/4001\<close> is the record
  with family \<open>ipv4\<close>, host \<open>127.0.0.1\<close>, transport \<open>tcp\<close> and port \<open>4001\<close>, the port
  being the string of the fifth field of the split canonical string.
\<close>

theorem C8_toOptions_ip4_tcp:
  "Multiaddr (JString ''/ip4/127.0.0.1/tcp/4001'')
     = Inr \<lparr>buffer = [0x04, 0x7f, 0x00, 0x00, 0x01, 0x06, 0x0f, 0xa1]\<rparr>
   \<and> toOptions \<lparr>buffer = [0x04, 0x7f, 0x00, 0x00, 0x01, 0x06, 0x0f, 0xa1]\<rparr>
       = Inr \<lparr>family = ''ipv4'', host = Some ''127.0.0.1'',
               transport = Some ''tcp'', port = Some ''4001''\<rparr>"
  by (simp add: example_Multiaddr toOptions_def example_toString js_index_def)

section \<open>The constructor\<close>

text \<open>
  Claim C9. The constructor called with no argument or with any falsy value (undefined,
  null, the empty string, and also false, 0 and NaN) succeeds, and its result is the
  empty address: its bytes are empty and it equals the address built from the string
  \<open>""\<close>.
\<close>

theorem C9_falsy_is_empty_address:
  "falsy v \<Longrightarrow>
     \<exists>m e. Multiaddr v = Inr m \<and> Multiaddr (JString []) = Inr e
            \<and> buffer m = [] \<and> equals m e"
  by (simp add: Multiaddr_def fromString_def equals_def)

theorem C9_falsy_is_empty_address_witness:
  "falsy JUndefined \<and> falsy JNull \<and> falsy (JString [])
   \<and> (\<exists>m e. Multiaddr JUndefined = Inr m \<and> Multiaddr (JString []) = Inr e
              \<and> buffer m = [] \<and> equals m e)
   \<and> (\<exists>m e. Multiaddr JNull = Inr m \<and> Multiaddr (JString []) = Inr e
              \<and> buffer m = [] \<and> equals m e)"
  using C9_falsy_is_empty_address [of JUndefined] C9_falsy_is_empty_address [of JNull]
  by simp

section \<open>Valid addresses\<close>

text \<open>
  An address is valid when the structural validation of the constructor accepts its
  bytes. Every address the constructor returns is valid.
\<close>

definition valid_address :: "multiaddr \<Rightarrow> bool" where
  "valid_address m = (fromBuffer (buffer m) = Inr (buffer m))"

lemma valid_address_tuples:
  "valid_address m \<Longrightarrow> \<exists>ts. tuples m = Inr ts \<and> list_all tuple_ok ts"
  by (auto simp: valid_address_def fromBuffer_def tuples_def split: sum.splits
      dest: bufferToTuples_ok)

lemma valid_address_canonical_bytes:
  "list_all tuple_ok ts \<Longrightarrow> valid_address \<lparr>buffer = tuplesToBuffer ts\<rparr>"
  by (simp add: valid_address_def fromBuffer_def bufferToTuples_tuplesToBuffer)

lemma fromString_valid: "fromString s = Inr b \<Longrightarrow> valid_address \<lparr>buffer = b\<rparr>"
  by (auto dest!: fromString_Inr simp: valid_address_canonical_bytes)

lemma fromBuffer_valid: "fromBuffer b = Inr b' \<Longrightarrow> b' = b \<and> valid_address \<lparr>buffer = b\<rparr>"
  by (auto simp: fromBuffer_def valid_address_def split: sum.splits)

lemma Multiaddr_valid: "Multiaddr v = Inr m \<Longrightarrow> valid_address m"
proof -
  assume a: "Multiaddr v = Inr m"
  show ?thesis
  proof (cases "falsy v")
    case True
    with a have "m = \<lparr>buffer = []\<rparr>" by (simp add: Multiaddr_def fromString_def)
    then show ?thesis by (simp add: valid_address_def fromBuffer_def bufferToTuples_Nil)
  next
    case False
    with a show ?thesis
      by (cases v)
         (auto simp: Multiaddr_def map_sum_def split: sum.splits
           dest: fromString_valid fromBuffer_valid)
  qed
qed

lemma example_valid:
  "valid_address \<lparr>buffer = [0x04, 0x7f, 0x00, 0x00, 0x01, 0x06, 0x0f, 0xa1]\<rparr>"
  by (simp add: valid_address_def fromBuffer_def example_tuples)

lemma Multiaddr_copy: "valid_address m \<Longrightarrow> Multiaddr (JMultiaddr m) = Inr m"
  by (simp add: Multiaddr_def valid_address_def)

lemma toString_tuples:
  "tuples m = Inr ts \<Longrightarrow> toString m = tuplesToString ts"
  by (simp add: tuples_def toString_def bufferToString_def)

lemma valid_address_toString:
  "valid_address m \<Longrightarrow>
     \<exists>ts s. tuples m = Inr ts \<and> list_all tuple_ok ts \<and> tuplesToString ts = Inr s
           \<and> toString m = Inr s"
proof -
  assume "valid_address m"
  from valid_address_tuples [OF this] obtain ts where
    ts: "tuples m = Inr ts" "list_all tuple_ok ts" by blast
  from tuplesToString_total [OF ts(2)] obtain s where "tuplesToString ts = Inr s" ..
  with ts show ?thesis by (auto simp: toString_tuples)
qed

section \<open>lastIndexOf\<close>

lemma lastIndexFrom_Some:
  "lastIndexFrom s t k = Some i \<Longrightarrow>
     i \<le> k \<and> take (length t) (drop i s) = t
     \<and> (\<forall>j. i < j \<and> j \<le> k \<longrightarrow> take (length t) (drop j s) \<noteq> t)"
proof (induction k)
  case 0
  then show ?case by (auto split: if_splits)
next
  case (Suc k)
  show ?case
  proof (cases "take (length t) (drop (Suc k) s) = t")
    case True
    with Suc.prems show ?thesis by auto
  next
    case False
    with Suc.prems have "lastIndexFrom s t k = Some i" by simp
    from Suc.IH [OF this] False show ?thesis
      by (auto simp: le_Suc_eq)
  qed
qed

lemma lastIndexFrom_None:
  "lastIndexFrom s t k = None \<Longrightarrow> \<forall>j\<le>k. take (length t) (drop j s) \<noteq> t"
proof (induction k)
  case 0
  then show ?case by (auto split: if_splits)
next
  case (Suc k)
  then show ?case by (auto split: if_splits simp: le_Suc_eq)
qed

lemma occurrence_iff:
  "(\<exists>post. s = pre @ t @ post) \<longleftrightarrow>
     (length pre + length t \<le> length s \<and> take (length pre) s = pre
      \<and> take (length t) (drop (length pre) s) = t)"
proof
  assume "\<exists>post. s = pre @ t @ post"
  then show "length pre + length t \<le> length s \<and> take (length pre) s = pre
      \<and> take (length t) (drop (length pre) s) = t" by auto
next
  assume a: "length pre + length t \<le> length s \<and> take (length pre) s = pre
      \<and> take (length t) (drop (length pre) s) = t"
  have "s = take (length pre) s @ take (length t) (drop (length pre) s)
            @ drop (length t) (drop (length pre) s)"
    by (metis append_take_drop_id)
  with a show "\<exists>post. s = pre @ t @ post" by metis
qed

lemma lastIndexOf_None_iff:
  "lastIndexOf s t = None \<longleftrightarrow> \<not> (\<exists>pre post. s = pre @ t @ post)"
proof
  assume n: "lastIndexOf s t = None"
  show "\<not> (\<exists>pre post. s = pre @ t @ post)"
  proof
    assume "\<exists>pre post. s = pre @ t @ post"
    then obtain pre post where s: "s = pre @ t @ post" by blast
    then have le: "length pre \<le> length s - length t" by simp
    from s have "\<not> length s < length t" by simp
    with n have "lastIndexFrom s t (length s - length t) = None"
      by (simp add: lastIndexOf_def)
    from lastIndexFrom_None [OF this] le
    have "take (length t) (drop (length pre) s) \<noteq> t" by blast
    with s show False by simp
  qed
next
  assume a: "\<not> (\<exists>pre post. s = pre @ t @ post)"
  show "lastIndexOf s t = None"
  proof (rule ccontr)
    assume "lastIndexOf s t \<noteq> None"
    then obtain i where i: "lastIndexOf s t = Some i" by auto
    then have len: "length t \<le> length s"
      and f: "lastIndexFrom s t (length s - length t) = Some i"
      by (auto simp: lastIndexOf_def split: if_splits)
    from lastIndexFrom_Some [OF f] have "i \<le> length s - length t"
      "take (length t) (drop i s) = t" by auto
    then have "s = take i s @ t @ drop (length t) (drop i s)"
      by (metis append_take_drop_id)
    with a show False by blast
  qed
qed

lemma lastIndexOf_Some:
  assumes "lastIndexOf s t = Some i"
  shows "(\<exists>post. s = take i s @ t @ post) \<and> i + length t \<le> length s
         \<and> (\<forall>pre post. s = pre @ t @ post \<longrightarrow> length pre \<le> i)"
proof -
  from assms have len: "length t \<le> length s"
    and f: "lastIndexFrom s t (length s - length t) = Some i"
    by (auto simp: lastIndexOf_def split: if_splits)
  from lastIndexFrom_Some [OF f] have i: "i \<le> length s - length t"
    "take (length t) (drop i s) = t"
    and last: "\<forall>j. i < j \<and> j \<le> length s - length t \<longrightarrow> take (length t) (drop j s) \<noteq> t"
    by auto
  have "s = take i s @ t @ drop (length t) (drop i s)"
    using i by (metis append_take_drop_id)
  moreover have "\<forall>pre post. s = pre @ t @ post \<longrightarrow> length pre \<le> i"
  proof (intro allI impI)
    fix pre post assume s: "s = pre @ t @ post"
    show "length pre \<le> i"
    proof (rule ccontr)
      assume "\<not> length pre \<le> i"
      then have "i < length pre" by simp
      moreover from s have "length pre \<le> length s - length t" by simp
      ultimately have "take (length t) (drop (length pre) s) \<noteq> t" using last by blast
      with s show False by simp
    qed
  qed
  ultimately show ?thesis using i len by auto
qed

lemma lastIndexOf_append: "lastIndexOf (s @ t) t = Some (length s)"
proof -
  have "\<exists>pre post. s @ t = pre @ t @ post" by (metis append_Nil2)
  then have "lastIndexOf (s @ t) t \<noteq> None" by (simp add: lastIndexOf_None_iff)
  then obtain i where i: "lastIndexOf (s @ t) t = Some i" by auto
  from lastIndexOf_Some [OF i] have "\<exists>post. s @ t = take i (s @ t) @ t @ post"
    and le: "i + length t \<le> length (s @ t)"
    and mx: "\<forall>pre post. s @ t = pre @ t @ post \<longrightarrow> length pre \<le> i" by auto
  have "i \<le> length s" using le by simp
  moreover have "length s \<le> i" using mx by (metis append_Nil2)
  ultimately show ?thesis using i by simp
qed

section \<open>The failures of the string path\<close>

lemma toBytes_error: "toBytes p v = Inl e \<Longrightarrow> e = InvalidValue"
  by (auto simp: toBytes_def split: option.splits)

lemma fromSegments_error:
  "fromSegments segs = Inl e \<Longrightarrow> e = UnknownProtocol \<or> e = InvalidFormat \<or> e = InvalidValue"
proof (induction segs rule: fromSegments.induct)
  case 1
  then show ?case by simp
next
  case (2 n rest)
  then show ?case
    by (auto split: option.splits if_splits list.splits sum.splits dest: toBytes_error)
qed

lemma Multiaddr_JString_error:
  "Multiaddr (JString s) = Inl e \<Longrightarrow> e = UnknownProtocol \<or> e = InvalidFormat \<or> e = InvalidValue"
  by (cases s)
     (auto simp: Multiaddr_def fromString_def map_sum_def
        split: if_splits sum.splits dest: fromSegments_error)

section \<open>Round trip through the string form\<close>

lemma Multiaddr_JString:
  "Multiaddr (JString s) = map_sum id (\<lambda>bs. \<lparr>buffer = bs\<rparr>) (fromString s)"
  by (cases s) (simp_all add: Multiaddr_def)

lemma Multiaddr_string_tuples:
  "Multiaddr (JString s) = Inr m \<longleftrightarrow>
     (\<exists>ts. string_tuples s = Inr ts \<and> m = \<lparr>buffer = tuplesToBuffer ts\<rparr>)"
  by (auto simp: Multiaddr_JString fromString_tuples split: sum.splits)

lemma tuples_tuplesToBuffer:
  "list_all tuple_ok ts \<Longrightarrow> tuples \<lparr>buffer = tuplesToBuffer ts\<rparr> = Inr ts"
  by (simp add: tuples_def bufferToTuples_tuplesToBuffer)

lemma toString_tuplesToBuffer:
  "list_all tuple_ok ts \<Longrightarrow> toString \<lparr>buffer = tuplesToBuffer ts\<rparr> = tuplesToString ts"
  by (simp add: toString_def bufferToString_tuplesToBuffer)

text \<open>
  An address built from a string holds the canonical bytes of its tuples, and it renders
  as a canonical string that builds the same address.
\<close>

lemma string_built:
  assumes "Multiaddr (JString s) = Inr m"
  shows "\<exists>ts s'. string_tuples s = Inr ts \<and> list_all tuple_ok ts
           \<and> m = \<lparr>buffer = tuplesToBuffer ts\<rparr> \<and> tuples m = Inr ts
           \<and> canonical_string s' \<and> string_tuples s' = Inr ts \<and> toString m = Inr s'"
proof -
  from assms obtain ts where ts: "string_tuples s = Inr ts" "m = \<lparr>buffer = tuplesToBuffer ts\<rparr>"
    by (auto simp: Multiaddr_string_tuples)
  from string_tuples_ok [OF ts(1)] have ok: "list_all tuple_ok ts" .
  from string_tuples_normal [OF ts(1)] obtain s' where
    s': "canonical_string s'" "string_tuples s' = Inr ts" "tuplesToString ts = Inr s'" by blast
  from ts ok s' show ?thesis
    by (auto simp: tuples_tuplesToBuffer toString_tuplesToBuffer)
qed

lemma canonical_built:
  assumes "canonical_string s"
  shows "\<exists>ts. string_tuples s = Inr ts \<and> list_all tuple_ok ts
           \<and> Multiaddr (JString s) = Inr \<lparr>buffer = tuplesToBuffer ts\<rparr>
           \<and> toString \<lparr>buffer = tuplesToBuffer ts\<rparr> = Inr s"
proof -
  from string_tuples_canonical [OF assms] obtain ts where
    ts: "string_tuples s = Inr ts" "tuplesToString ts = Inr s" by blast
  from string_tuples_ok [OF ts(1)] have ok: "list_all tuple_ok ts" .
  from ts ok show ?thesis
    by (auto simp: Multiaddr_string_tuples toString_tuplesToBuffer)
qed

text \<open>
  Claim C1. The canonical strings of the grammar (components \<open>/name/value\<close>, \<open>/name\<close>
  for a protocol without a value, \<open>/name/rest\<close> for a path, with registered names and
  canonical values) are exactly the strings that round-trip: building the address from a
  canonical \<open>s\<close> succeeds and rendering it gives \<open>s\<close> back,
  \<open>toString(fromString(s)) = s\<close>, and no other string comes back unchanged.
\<close>

theorem C1_roundtrip:
  "canonical_string s \<longleftrightarrow> (\<exists>m. Multiaddr (JString s) = Inr m \<and> toString m = Inr s)"
proof
  assume "canonical_string s"
  from canonical_built [OF this] show "\<exists>m. Multiaddr (JString s) = Inr m \<and> toString m = Inr s"
    by blast
next
  assume "\<exists>m. Multiaddr (JString s) = Inr m \<and> toString m = Inr s"
  then obtain m where m: "Multiaddr (JString s) = Inr m" "toString m = Inr s" by blast
  from string_built [OF m(1)] m(2) show "canonical_string s" by auto
qed

lemma is_digit_eval:
  "is_digit 10 CHR ''0''" "is_digit 10 CHR ''1''" "is_digit 10 CHR ''2''" "is_digit 10 CHR ''3''"
  "is_digit 10 CHR ''4''" "is_digit 10 CHR ''5''" "is_digit 10 CHR ''6''" "is_digit 10 CHR ''7''"
  "is_digit 10 CHR ''8''" "is_digit 10 CHR ''9''"
  "is_digit 16 CHR ''0''" "is_digit 16 CHR ''1''" "is_digit 16 CHR ''2''" "is_digit 16 CHR ''3''"
  "is_digit 16 CHR ''4''" "is_digit 16 CHR ''5''" "is_digit 16 CHR ''6''" "is_digit 16 CHR ''7''"
  "is_digit 16 CHR ''8''" "is_digit 16 CHR ''9''" "is_digit 16 CHR ''a''" "is_digit 16 CHR ''b''"
  "is_digit 16 CHR ''c''" "is_digit 16 CHR ''d''" "is_digit 16 CHR ''e''" "is_digit 16 CHR ''f''"
  by (simp_all add: is_digit_def)

lemma example_canonical: "canonical_string ''/ip4/127.0.0.1/tcp/4001''"
  by (simp add: canonical_string_def protocols_byName_table canonical_value_def
        canonical_ip4_def canonical_octet_def canonical_port_def canonical_number_def
        is_digit_eval readNat_def digit_val_eval)

text \<open>
  A canonical string with a domain name, a flag without a value, a binary identifier and
  a path that holds separators.
\<close>

lemma example_canonical_mixed:
  "canonical_string ''/dns/a.io/tcp/80/http/ipfs/0a1f/unix/tmp/a.sock''"
  by (simp add: canonical_string_def protocols_byName_table canonical_value_def
        canonical_port_def canonical_number_def canonical_id_def
        is_digit_eval readNat_def digit_val_eval)

theorem C1_roundtrip_witness:
  "canonical_string ''/ip4/127.0.0.1/tcp/4001''
   \<and> (\<exists>m. Multiaddr (JString ''/ip4/127.0.0.1/tcp/4001'') = Inr m
           \<and> toString m = Inr ''/ip4/127.0.0.1/tcp/4001'')
   \<and> canonical_string ''/dns/a.io/tcp/80/http/ipfs/0a1f/unix/tmp/a.sock''
   \<and> (\<exists>m. Multiaddr (JString ''/dns/a.io/tcp/80/http/ipfs/0a1f/unix/tmp/a.sock'') = Inr m
           \<and> toString m = Inr ''/dns/a.io/tcp/80/http/ipfs/0a1f/unix/tmp/a.sock'')"
  using C1_roundtrip [of "''/ip4/127.0.0.1/tcp/4001''"]
    C1_roundtrip [of "''/dns/a.io/tcp/80/http/ipfs/0a1f/unix/tmp/a.sock''"]
    example_canonical example_canonical_mixed
  by simp

section \<open>Decapsulation\<close>

text \<open>
  Claim C3. \<open>decapsulate(address, suffix)\<close> renders both addresses, finds the last
  occurrence of the suffix's string in the address's string and returns the part before
  that occurrence, parsed again as an address (the parse may fail); it fails with
  \<open>NotContained\<close> exactly when the suffix's string is not a substring of the address's
  string.
\<close>

theorem C3_decapsulate:
  assumes "valid_address this" "valid_address addr"
  shows "\<exists>s t. toString this = Inr s \<and> toString addr = Inr t
           \<and> ((decapsulate this addr = Inl NotContained)
                = (\<not> (\<exists>pre post. s = pre @ t @ post)))
           \<and> (\<forall>pre post.
                 s = pre @ t @ post
                 \<and> (\<forall>pre' post'. s = pre' @ t @ post' \<longrightarrow> length pre' \<le> length pre)
                 \<longrightarrow> decapsulate this addr = Multiaddr (JString pre))"
proof -
  from valid_address_toString [OF assms(1)] obtain s where s: "toString this = Inr s" by blast
  from valid_address_toString [OF assms(2)] obtain t where t: "toString addr = Inr t" by blast
  have d: "decapsulate this addr =
      (case lastIndexOf s t of None \<Rightarrow> Inl NotContained
       | Some i \<Rightarrow> Multiaddr (JString (take i s)))"
    using s t by (simp add: decapsulate_def)
  have iff: "(decapsulate this addr = Inl NotContained)
      = (\<not> (\<exists>pre post. s = pre @ t @ post))"
  proof (cases "lastIndexOf s t")
    case None
    then show ?thesis using d lastIndexOf_None_iff [of s t] by simp
  next
    case (Some i)
    then have "\<exists>pre post. s = pre @ t @ post"
      using lastIndexOf_None_iff [of s t] by simp
    moreover have "decapsulate this addr \<noteq> Inl NotContained"
      using d Some Multiaddr_JString_error [of "take i s" NotContained] by auto
    ultimately show ?thesis by simp
  qed
  have last: "\<forall>pre post.
      s = pre @ t @ post
      \<and> (\<forall>pre' post'. s = pre' @ t @ post' \<longrightarrow> length pre' \<le> length pre)
      \<longrightarrow> decapsulate this addr = Multiaddr (JString pre)"
  proof (intro allI impI, elim conjE)
    fix pre post
    assume occ: "s = pre @ t @ post"
      and mx: "\<forall>pre' post'. s = pre' @ t @ post' \<longrightarrow> length pre' \<le> length pre"
    from occ have "lastIndexOf s t \<noteq> None" using lastIndexOf_None_iff [of s t] by blast
    then obtain i where i: "lastIndexOf s t = Some i" by auto
    from lastIndexOf_Some [OF i] obtain post' where
      p: "s = take i s @ t @ post'" and le: "i + length t \<le> length s"
      and mx': "\<forall>pre post. s = pre @ t @ post \<longrightarrow> length pre \<le> i" by blast
    from mx' occ have "length pre \<le> i" by blast
    moreover from mx p have "length (take i s) \<le> length pre" by blast
    then have "i \<le> length pre" using le by simp
    ultimately have "i = length pre" by simp
    then have "take i s = pre" using occ by simp
    then show "decapsulate this addr = Multiaddr (JString pre)" using d i by simp
  qed
  from s t iff last show ?thesis by blast
qed

section \<open>Worked addresses\<close>

lemma tcp_tuples: "bufferToTuples [0x06, 0x0f, 0xa1] = Inr [(6, [0x0f, 0xa1])]"
  by (simp add: bufferToTuples.simps protocols_table sizeForAddr_def)

lemma tcp_valid: "valid_address \<lparr>buffer = [0x06, 0x0f, 0xa1]\<rparr>"
  by (simp add: valid_address_def fromBuffer_def tcp_tuples)

lemma tcp_toString: "toString \<lparr>buffer = [0x06, 0x0f, 0xa1]\<rparr> = Inr ''/tcp/4001''"
  by (simp add: toString_def bufferToString_def tcp_tuples protocols_table
        toDisplay_def port_toDisplay_def example_showNat)

lemma ip4_tuples:
  "bufferToTuples [0x04, 0x7f, 0x00, 0x00, 0x01] = Inr [(4, [0x7f, 0x00, 0x00, 0x01])]"
  by (simp add: bufferToTuples.simps protocols_table sizeForAddr_def)

lemma ip4_fromString: "fromString ''/ip4/127.0.0.1'' = Inr [0x04, 0x7f, 0x00, 0x00, 0x01]"
  by (simp add: fromString_def protocols_byName_table example_ip4_toBytes
        toBytes_def emit_def varint_encode_small)

lemma example_decapsulate:
  "decapsulate \<lparr>buffer = [0x04, 0x7f, 0x00, 0x00, 0x01, 0x06, 0x0f, 0xa1]\<rparr>
       \<lparr>buffer = [0x06, 0x0f, 0xa1]\<rparr>
     = Inr \<lparr>buffer = [0x04, 0x7f, 0x00, 0x00, 0x01]\<rparr>"
  using lastIndexOf_append [of "''/ip4/127.0.0.1''" "''/tcp/4001''"]
  by (simp add: decapsulate_def example_toString tcp_toString Multiaddr_def ip4_fromString)

theorem C3_decapsulate_witness:
  "valid_address \<lparr>buffer = [0x04, 0x7f, 0x00, 0x00, 0x01, 0x06, 0x0f, 0xa1]\<rparr>
   \<and> valid_address \<lparr>buffer = [0x06, 0x0f, 0xa1]\<rparr>
   \<and> ((decapsulate \<lparr>buffer = [0x04, 0x7f, 0x00, 0x00, 0x01, 0x06, 0x0f, 0xa1]\<rparr>
          \<lparr>buffer = [0x06, 0x0f, 0xa1]\<rparr> = Inl NotContained)
        = (\<not> (\<exists>pre post. ''/ip4/127.0.0.1/tcp/4001'' = pre @ ''/tcp/4001'' @ post)))
   \<and> decapsulate \<lparr>buffer = [0x04, 0x7f, 0x00, 0x00, 0x01, 0x06, 0x0f, 0xa1]\<rparr>
          \<lparr>buffer = [0x06, 0x0f, 0xa1]\<rparr>
        = Inr \<lparr>buffer = [0x04, 0x7f, 0x00, 0x00, 0x01]\<rparr>"
  using C3_decapsulate [OF example_valid tcp_valid] example_valid tcp_valid
  by (simp add: example_toString tcp_toString example_decapsulate)

lemma ip4_toString:
  "toString \<lparr>buffer = [0x04, 0x7f, 0x00, 0x00, 0x01]\<rparr> = Inr ''/ip4/127.0.0.1''"
  by (simp add: toString_def bufferToString_def ip4_tuples protocols_table
        toDisplay_def ip4_toDisplay_def example_showNat)

lemma outer_tuples:
  "bufferToTuples [0x04, 0x08, 0x08, 0x08, 0x08, 0x06, 0x04, 0x38]
     = Inr [(4, [0x08, 0x08, 0x08, 0x08]), (6, [0x04, 0x38])]"
  by (simp add: bufferToTuples.simps protocols_table sizeForAddr_def)

lemma outer_toString:
  "toString \<lparr>buffer = [0x04, 0x08, 0x08, 0x08, 0x08, 0x06, 0x04, 0x38]\<rparr>
     = Inr ''/ip4/8.8.8.8/tcp/1080''"
  by (simp add: toString_def bufferToString_def outer_tuples protocols_table
        toDisplay_def ip4_toDisplay_def port_toDisplay_def showNat_digit showNat_step
        digit_char_eval)

lemma outer_Multiaddr:
  "Multiaddr (JString ''/ip4/8.8.8.8/tcp/1080'')
     = Inr \<lparr>buffer = [0x04, 0x08, 0x08, 0x08, 0x08, 0x06, 0x04, 0x38]\<rparr>"
  by (simp add: Multiaddr_def fromString_def protocols_byName_table toBytes_def emit_def
        varint_encode_small ip4_toBytes_def octet_def port_toBytes_def readNat_def
        digit_val_eval)

text \<open>The same IPv4 address with the code 4 written in two varint bytes, \<open>84 00\<close>.\<close>

lemma long_varint_tuples:
  "bufferToTuples [0x84, 0x00, 0x7f, 0x00, 0x00, 0x01] = Inr [(4, [0x7f, 0x00, 0x00, 0x01])]"
  by (simp add: bufferToTuples.simps protocols_table sizeForAddr_def)

lemma long_varint_valid: "valid_address \<lparr>buffer = [0x84, 0x00, 0x7f, 0x00, 0x00, 0x01]\<rparr>"
  by (simp add: valid_address_def fromBuffer_def long_varint_tuples)

lemma long_varint_toString:
  "toString \<lparr>buffer = [0x84, 0x00, 0x7f, 0x00, 0x00, 0x01]\<rparr> = Inr ''/ip4/127.0.0.1''"
  by (simp add: toString_def bufferToString_def long_varint_tuples protocols_table
        toDisplay_def ip4_toDisplay_def example_showNat)

lemma long_varint_encapsulate:
  "encapsulate \<lparr>buffer = [0x84, 0x00, 0x7f, 0x00, 0x00, 0x01]\<rparr>
       (JMultiaddr \<lparr>buffer = [0x06, 0x0f, 0xa1]\<rparr>)
     = Inr \<lparr>buffer = [0x04, 0x7f, 0x00, 0x00, 0x01, 0x06, 0x0f, 0xa1]\<rparr>"
  by (simp add: encapsulate_def Multiaddr_copy [OF tcp_valid] long_varint_toString
        tcp_toString example_Multiaddr)

text \<open>
  Addresses with a length-prefixed value: the codes 400 and 480 take two varint bytes,
  a text is stored as the bytes of its characters after their number.
\<close>

lemma varint_encode_two:
  "128 \<le> n \<Longrightarrow> n < 16384 \<Longrightarrow>
     varint_encode n = [of_nat (n mod 128 + 128), of_nat (n div 128)]"
  by (subst varint_encode.simps) (simp add: varint_encode_small less_mult_imp_div_less)

lemma varint_encode_eval:
  "varint_encode 400 = [0x90, 0x03]" "varint_encode 480 = [0xe0, 0x03]"
  by (simp_all add: varint_encode_two)

lemma char_of_byte_eval:
  "char_of_byte 0x61 = CHR ''a''" "char_of_byte 0x2f = CHR ''/''" "char_of_byte 0x62 = CHR ''b''"
  "char_of_byte 0x74 = CHR ''t''" "char_of_byte 0x63 = CHR ''c''" "char_of_byte 0x70 = CHR ''p''"
  "char_of_byte 0x38 = CHR ''8''" "char_of_byte 0x30 = CHR ''0''" "char_of_byte 0x68 = CHR ''h''"
  by (simp_all add: char_of_byte_def char_of_def bit_0)

lemma unix_Multiaddr:
  "Multiaddr (JString ''/unix/a'') = Inr \<lparr>buffer = [0x90, 0x03, 0x01, 0x61]\<rparr>"
  by (simp add: Multiaddr_def fromString_def protocols_byName_table toBytes_def
        text_toBytes_def emit_def varint_encode_small varint_encode_eval byte_of_char_def)

lemma unix_tuples: "bufferToTuples [0x90, 0x03, 0x01, 0x61] = Inr [(400, [0x01, 0x61])]"
  by (simp add: bufferToTuples.simps protocols_table sizeForAddr_def)

lemma unix_toString: "toString \<lparr>buffer = [0x90, 0x03, 0x01, 0x61]\<rparr> = Inr ''/unix/a''"
  by (simp add: toString_def bufferToString_def unix_tuples protocols_table toDisplay_def
        text_toDisplay_def payload_def char_of_byte_eval)

lemma tcp80_Multiaddr: "Multiaddr (JString ''/tcp/80'') = Inr \<lparr>buffer = [0x06, 0x00, 0x50]\<rparr>"
  by (simp add: Multiaddr_def fromString_def protocols_byName_table toBytes_def emit_def
        varint_encode_small port_toBytes_def readNat_def digit_val_eval)

lemma tcp80_tuples: "bufferToTuples [0x06, 0x00, 0x50] = Inr [(6, [0x00, 0x50])]"
  by (simp add: bufferToTuples.simps protocols_table sizeForAddr_def)

lemma tcp80_toString: "toString \<lparr>buffer = [0x06, 0x00, 0x50]\<rparr> = Inr ''/tcp/80''"
  by (simp add: toString_def bufferToString_def tcp80_tuples protocols_table
        toDisplay_def port_toDisplay_def showNat_digit showNat_step digit_char_eval)

lemma unix_tcp_Multiaddr:
  "Multiaddr (JString ''/unix/a/tcp/80'')
     = Inr \<lparr>buffer = [0x90, 0x03, 0x08, 0x61, 0x2f, 0x74, 0x63, 0x70, 0x2f, 0x38, 0x30]\<rparr>"
  by (simp add: Multiaddr_def fromString_def protocols_byName_table toBytes_def
        text_toBytes_def emit_def varint_encode_small varint_encode_eval byte_of_char_def)

lemma unix_tcp_tuples:
  "bufferToTuples [0x90, 0x03, 0x08, 0x61, 0x2f, 0x74, 0x63, 0x70, 0x2f, 0x38, 0x30]
     = Inr [(400, [0x08, 0x61, 0x2f, 0x74, 0x63, 0x70, 0x2f, 0x38, 0x30])]"
  by (simp add: bufferToTuples.simps protocols_table sizeForAddr_def)

lemma unix_tcp_toString:
  "toString \<lparr>buffer = [0x90, 0x03, 0x08, 0x61, 0x2f, 0x74, 0x63, 0x70, 0x2f, 0x38, 0x30]\<rparr>
     = Inr ''/unix/a/tcp/80''"
  by (simp add: toString_def bufferToString_def unix_tcp_tuples protocols_table toDisplay_def
        text_toDisplay_def payload_def char_of_byte_eval)

text \<open>A domain name that holds the separator can be built from bytes only.\<close>

lemma dns_tuples:
  "bufferToTuples [0x35, 0x03, 0x61, 0x2f, 0x62] = Inr [(53, [0x03, 0x61, 0x2f, 0x62])]"
  by (simp add: bufferToTuples.simps protocols_table sizeForAddr_def)

lemma dns_Multiaddr:
  "Multiaddr (JBuffer [0x35, 0x03, 0x61, 0x2f, 0x62])
     = Inr \<lparr>buffer = [0x35, 0x03, 0x61, 0x2f, 0x62]\<rparr>"
  by (simp add: Multiaddr_def fromBuffer_def dns_tuples)

lemma dns_toString:
  "toString \<lparr>buffer = [0x35, 0x03, 0x61, 0x2f, 0x62]\<rparr> = Inr ''/dns/a/b''"
  by (simp add: toString_def bufferToString_def dns_tuples protocols_table toDisplay_def
        text_toDisplay_def payload_def char_of_byte_eval)

lemma dns_reparse: "Multiaddr (JString ''/dns/a/b'') = Inl UnknownProtocol"
  by (simp add: Multiaddr_def fromString_def protocols_byName_table toBytes_def
        text_toBytes_def protocols_byName_def table_def)

text \<open>
  Strings that parse without being canonical: a shortened IPv6 address is rendered with
  its eight groups, a port written with a leading zero without it.
\<close>

lemma replicate_seven: "replicate 7 x = [x, x, x, x, x, x, x]"
  by (simp add: numeral_eq_Suc)

lemma ip6_short_parts:
  "ip6_parts ''::1'' = [''0'', ''0'', ''0'', ''0'', ''0'', ''0'', ''0'', ''1'']"
  by (simp add: ip6_parts_def ip6_groups_def replicate_seven)

lemma hextet_eval: "hextet ''0'' = Some [0, 0]" "hextet ''1'' = Some [0, 1]"
  by (simp_all add: hextet_def readNat_def digit_val_eval)

lemma ip6_short_toBytes:
  "ip6_toBytes ''::1'' = Some [0, 0, 0, 0, 0, 0, 0, 0, 0, 0, 0, 0, 0, 0, 0, 1]"
  by (simp add: ip6_toBytes_def ip6_short_parts hextet_eval)

lemma ip6_short_Multiaddr:
  "Multiaddr (JString ''/ip6/::1'')
     = Inr \<lparr>buffer = [0x29, 0, 0, 0, 0, 0, 0, 0, 0, 0, 0, 0, 0, 0, 0, 0, 1]\<rparr>"
  by (simp add: Multiaddr_def fromString_def protocols_byName_table toBytes_def emit_def
        varint_encode_small ip6_short_toBytes)

lemma ip6_short_tuples:
  "bufferToTuples [0x29, 0, 0, 0, 0, 0, 0, 0, 0, 0, 0, 0, 0, 0, 0, 0, 1]
     = Inr [(41, [0, 0, 0, 0, 0, 0, 0, 0, 0, 0, 0, 0, 0, 0, 0, 1])]"
  by (simp add: bufferToTuples.simps protocols_table sizeForAddr_def)

lemma ip6_short_toString:
  "toString \<lparr>buffer = [0x29, 0, 0, 0, 0, 0, 0, 0, 0, 0, 0, 0, 0, 0, 0, 0, 1]\<rparr>
     = Inr ''/ip6/0:0:0:0:0:0:0:1''"
  by (simp add: toString_def bufferToString_def ip6_short_tuples protocols_table
        toDisplay_def ip6_toDisplay_def showNat_digit digit_char_eval)

lemma tcp_padded_Multiaddr:
  "Multiaddr (JString ''/tcp/080'') = Inr \<lparr>buffer = [0x06, 0x00, 0x50]\<rparr>"
  by (simp add: Multiaddr_def fromString_def protocols_byName_table toBytes_def emit_def
        varint_encode_small port_toBytes_def readNat_def digit_val_eval)

section \<open>Encapsulation\<close>

text \<open>
  Two addresses built from strings render as canonical strings, so the concatenation is
  canonical and builds an address that renders as the concatenation.
\<close>

lemma encapsulate_built:
  assumes "Multiaddr (JString x) = Inr outer" "Multiaddr (JString y) = Inr inner"
  shows "\<exists>to ti so si r.
           list_all tuple_ok to \<and> list_all tuple_ok ti
         \<and> outer = \<lparr>buffer = tuplesToBuffer to\<rparr> \<and> inner = \<lparr>buffer = tuplesToBuffer ti\<rparr>
         \<and> tuples outer = Inr to \<and> tuples inner = Inr ti
         \<and> toString outer = Inr so \<and> toString inner = Inr si
         \<and> canonical_string so \<and> canonical_string si
         \<and> string_tuples so = Inr to \<and> string_tuples si = Inr ti
         \<and> encapsulate outer (JMultiaddr inner) = Inr r
         \<and> Multiaddr (JString (so @ si)) = Inr r \<and> toString r = Inr (so @ si)"
proof -
  from string_built [OF assms(1)] obtain to so where
    o: "list_all tuple_ok to" "outer = \<lparr>buffer = tuplesToBuffer to\<rparr>" "tuples outer = Inr to"
       "canonical_string so" "string_tuples so = Inr to" "toString outer = Inr so" by blast
  from string_built [OF assms(2)] obtain ti si where
    i: "list_all tuple_ok ti" "inner = \<lparr>buffer = tuplesToBuffer ti\<rparr>" "tuples inner = Inr ti"
       "canonical_string si" "string_tuples si = Inr ti" "toString inner = Inr si" by blast
  from canonical_string_append [OF o(4) i(4)] have "canonical_string (so @ si)" .
  from canonical_built [OF this] obtain r where
    r: "Multiaddr (JString (so @ si)) = Inr r" "toString r = Inr (so @ si)" by blast
  have "Multiaddr (JMultiaddr inner) = Inr inner"
    using Multiaddr_valid [OF assms(2)] by (rule Multiaddr_copy)
  then have "encapsulate outer (JMultiaddr inner) = Inr r"
    using o(6) i(6) r(1) by (simp add: encapsulate_def)
  with o i r show ?thesis by blast
qed

text \<open>
  Claim C4 as stated fails twice. The address built from the bytes \<open>35 03 61 2f 62\<close>,
  the domain name \<open>a/b\<close>, is valid and renders as \<open>/dns/a/b\<close>; encapsulating the empty
  address in it parses that string again and fails with \<open>UnknownProtocol\<close>. And
  encapsulating \<open>/tcp/80\<close> in \<open>/unix/a\<close> gives the string \<open>/unix/a/tcp/80\<close>, which is
  the one tuple of the path \<open>a/tcp/80\<close>: the tuple of the inner address is not appended.
\<close>

theorem C4_counterexample:
  "Multiaddr (JBuffer [0x35, 0x03, 0x61, 0x2f, 0x62])
     = Inr \<lparr>buffer = [0x35, 0x03, 0x61, 0x2f, 0x62]\<rparr>
   \<and> Multiaddr (JString []) = Inr \<lparr>buffer = []\<rparr>
   \<and> encapsulate \<lparr>buffer = [0x35, 0x03, 0x61, 0x2f, 0x62]\<rparr> (JMultiaddr \<lparr>buffer = []\<rparr>)
       = Inl UnknownProtocol
   \<and> Multiaddr (JString ''/unix/a'') = Inr \<lparr>buffer = [0x90, 0x03, 0x01, 0x61]\<rparr>
   \<and> Multiaddr (JString ''/tcp/80'') = Inr \<lparr>buffer = [0x06, 0x00, 0x50]\<rparr>
   \<and> tuples \<lparr>buffer = [0x90, 0x03, 0x01, 0x61]\<rparr> = Inr [(400, [0x01, 0x61])]
   \<and> tuples \<lparr>buffer = [0x06, 0x00, 0x50]\<rparr> = Inr [(6, [0x00, 0x50])]
   \<and> encapsulate \<lparr>buffer = [0x90, 0x03, 0x01, 0x61]\<rparr> (JMultiaddr \<lparr>buffer = [0x06, 0x00, 0x50]\<rparr>)
       = Inr \<lparr>buffer = [0x90, 0x03, 0x08, 0x61, 0x2f, 0x74, 0x63, 0x70, 0x2f, 0x38, 0x30]\<rparr>
   \<and> toString \<lparr>buffer = [0x90, 0x03, 0x08, 0x61, 0x2f, 0x74, 0x63, 0x70, 0x2f, 0x38, 0x30]\<rparr>
       = Inr ''/unix/a/tcp/80''
   \<and> tuples \<lparr>buffer = [0x90, 0x03, 0x08, 0x61, 0x2f, 0x74, 0x63, 0x70, 0x2f, 0x38, 0x30]\<rparr>
       = Inr [(400, [0x08, 0x61, 0x2f, 0x74, 0x63, 0x70, 0x2f, 0x38, 0x30])]
   \<and> [(400, [0x08, 0x61, 0x2f, 0x74, 0x63, 0x70, 0x2f, 0x38, 0x30])]
       \<noteq> [(400, [0x01, 0x61 :: byte])] @ [(6, [0x00, 0x50])]"
proof -
  have e: "Multiaddr (JString []) = Inr \<lparr>buffer = []\<rparr>"
    by (simp add: Multiaddr_def fromString_def)
  have c: "Multiaddr (JMultiaddr \<lparr>buffer = []\<rparr>) = Inr \<lparr>buffer = []\<rparr>"
    by (simp add: Multiaddr_def fromBuffer_def bufferToTuples_Nil)
  have s: "toString \<lparr>buffer = []\<rparr> = Inr []"
    by (simp add: toString_def bufferToString_def bufferToTuples_Nil)
  have 1: "encapsulate \<lparr>buffer = [0x35, 0x03, 0x61, 0x2f, 0x62]\<rparr> (JMultiaddr \<lparr>buffer = []\<rparr>)
      = Inl UnknownProtocol"
    by (simp add: encapsulate_def c s dns_toString dns_reparse)
  have t: "Multiaddr (JMultiaddr \<lparr>buffer = [0x06, 0x00, 0x50]\<rparr>)
      = Inr \<lparr>buffer = [0x06, 0x00, 0x50]\<rparr>"
    by (simp add: Multiaddr_def fromBuffer_def tcp80_tuples)
  have 2: "encapsulate \<lparr>buffer = [0x90, 0x03, 0x01, 0x61]\<rparr>
        (JMultiaddr \<lparr>buffer = [0x06, 0x00, 0x50]\<rparr>)
      = Inr \<lparr>buffer = [0x90, 0x03, 0x08, 0x61, 0x2f, 0x74, 0x63, 0x70, 0x2f, 0x38, 0x30]\<rparr>"
    using unix_tcp_Multiaddr by (simp add: encapsulate_def t unix_toString tcp80_toString)
  show ?thesis
    by (simp add: dns_Multiaddr e 1 unix_Multiaddr tcp80_Multiaddr 2 unix_tcp_toString
          tuples_def unix_tuples tcp80_tuples unix_tcp_tuples)
qed

text \<open>
  Claim C4, as amended. For any two addresses \<open>outer\<close> and \<open>inner\<close> built from strings,
  \<open>encapsulate\<close> succeeds and the canonical string of the result is
  \<open>outer.toString() + inner.toString()\<close>; when \<open>outer\<close> has no path-like component,
  the tuple sequence of the result is the tuples of \<open>outer\<close> followed by the tuples of
  \<open>inner\<close>, and its bytes are the bytes of \<open>outer\<close> followed by the bytes of \<open>inner\<close>.
\<close>

theorem C4_encapsulate:
  assumes "Multiaddr (JString x) = Inr outer" "Multiaddr (JString y) = Inr inner"
  shows "\<exists>r so si to ti.
           encapsulate outer (JMultiaddr inner) = Inr r
         \<and> toString outer = Inr so \<and> toString inner = Inr si
         \<and> toString r = Inr (so @ si)
         \<and> tuples outer = Inr to \<and> tuples inner = Inr ti
         \<and> (\<not> list_ex path_like to \<longrightarrow>
              tuples r = Inr (to @ ti) \<and> buffer r = buffer outer @ buffer inner)"
proof -
  from encapsulate_built [OF assms] obtain to ti so si r where
    h: "list_all tuple_ok to" "list_all tuple_ok ti"
       "outer = \<lparr>buffer = tuplesToBuffer to\<rparr>" "inner = \<lparr>buffer = tuplesToBuffer ti\<rparr>"
       "tuples outer = Inr to" "tuples inner = Inr ti"
       "toString outer = Inr so" "toString inner = Inr si"
       "canonical_string so" "string_tuples so = Inr to" "string_tuples si = Inr ti"
       "encapsulate outer (JMultiaddr inner) = Inr r"
       "Multiaddr (JString (so @ si)) = Inr r" "toString r = Inr (so @ si)"
    by blast
  have "tuples r = Inr (to @ ti) \<and> buffer r = buffer outer @ buffer inner"
    if np: "\<not> list_ex path_like to"
  proof -
    from string_tuples_append [OF h(9,10,11) np]
    have "string_tuples (so @ si) = Inr (to @ ti)" .
    with h(13) have r: "r = \<lparr>buffer = tuplesToBuffer (to @ ti)\<rparr>"
      by (simp add: Multiaddr_string_tuples)
    have "list_all tuple_ok (to @ ti)" using h(1,2) by simp
    from tuples_tuplesToBuffer [OF this] r h(3,4) show ?thesis
      by (simp add: tuplesToBuffer_append)
  qed
  with h show ?thesis by blast
qed

theorem C4_encapsulate_witness:
  "Multiaddr (JString ''/ip4/8.8.8.8/tcp/1080'')
     = Inr \<lparr>buffer = [0x04, 0x08, 0x08, 0x08, 0x08, 0x06, 0x04, 0x38]\<rparr>
   \<and> Multiaddr (JString ''/ip4/127.0.0.1/tcp/4001'')
     = Inr \<lparr>buffer = [0x04, 0x7f, 0x00, 0x00, 0x01, 0x06, 0x0f, 0xa1]\<rparr>
   \<and> \<not> list_ex path_like [(4, [0x08, 0x08, 0x08, 0x08]), (6, [0x04, 0x38])]
   \<and> (\<exists>r. encapsulate \<lparr>buffer = [0x04, 0x08, 0x08, 0x08, 0x08, 0x06, 0x04, 0x38]\<rparr>
             (JMultiaddr \<lparr>buffer = [0x04, 0x7f, 0x00, 0x00, 0x01, 0x06, 0x0f, 0xa1]\<rparr>) = Inr r
          \<and> toString r = Inr ''/ip4/8.8.8.8/tcp/1080/ip4/127.0.0.1/tcp/4001''
          \<and> tuples r = Inr [(4, [0x08, 0x08, 0x08, 0x08]), (6, [0x04, 0x38]),
                             (4, [0x7f, 0x00, 0x00, 0x01]), (6, [0x0f, 0xa1])]
          \<and> buffer r = [0x04, 0x08, 0x08, 0x08, 0x08, 0x06, 0x04, 0x38,
                         0x04, 0x7f, 0x00, 0x00, 0x01, 0x06, 0x0f, 0xa1])"
proof -
  have np: "\<not> list_ex path_like [(4, [0x08, 0x08, 0x08, 0x08]), (6, [0x04, 0x38])]"
    by (simp add: path_like_def protocols_table)
  from C4_encapsulate [OF outer_Multiaddr example_Multiaddr] np show ?thesis
    by (auto simp: outer_Multiaddr example_Multiaddr outer_toString example_toString
          tuples_def outer_tuples example_tuples)
qed

section \<open>Decapsulating what was encapsulated\<close>

text \<open>
  Claim C2 as stated fails: the address built from the bytes \<open>84 00 7f 00 00 01\<close> is
  valid, but encapsulating \<open>/tcp/4001\<close> in it and decapsulating \<open>/tcp/4001\<close> again
  returns the bytes \<open>04 7f 00 00 01\<close>, which \<open>equals\<close> tells apart from the original.
\<close>

theorem C2_counterexample:
  "Multiaddr (JBuffer [0x84, 0x00, 0x7f, 0x00, 0x00, 0x01])
     = Inr \<lparr>buffer = [0x84, 0x00, 0x7f, 0x00, 0x00, 0x01]\<rparr>
   \<and> Multiaddr (JBuffer [0x06, 0x0f, 0xa1]) = Inr \<lparr>buffer = [0x06, 0x0f, 0xa1]\<rparr>
   \<and> encapsulate \<lparr>buffer = [0x84, 0x00, 0x7f, 0x00, 0x00, 0x01]\<rparr>
         (JMultiaddr \<lparr>buffer = [0x06, 0x0f, 0xa1]\<rparr>)
       = Inr \<lparr>buffer = [0x04, 0x7f, 0x00, 0x00, 0x01, 0x06, 0x0f, 0xa1]\<rparr>
   \<and> decapsulate \<lparr>buffer = [0x04, 0x7f, 0x00, 0x00, 0x01, 0x06, 0x0f, 0xa1]\<rparr>
         \<lparr>buffer = [0x06, 0x0f, 0xa1]\<rparr>
       = Inr \<lparr>buffer = [0x04, 0x7f, 0x00, 0x00, 0x01]\<rparr>
   \<and> \<not> equals \<lparr>buffer = [0x04, 0x7f, 0x00, 0x00, 0x01]\<rparr>
         \<lparr>buffer = [0x84, 0x00, 0x7f, 0x00, 0x00, 0x01]\<rparr>"
  using long_varint_valid tcp_valid
  by (simp add: Multiaddr_def valid_address_def long_varint_encapsulate
        example_decapsulate equals_def)

text \<open>
  Claim C2, as amended. For all addresses \<open>A\<close> and \<open>B\<close> built from strings,
  \<open>decapsulate(encapsulate(A, B), B)\<close> succeeds and returns an address equal to \<open>A\<close>:
  the last occurrence of the string of \<open>B\<close> in the concatenation is the appended one,
  also when \<open>A\<close> ends with a path that takes \<open>B\<close> in.
\<close>

theorem C2_decapsulate_encapsulate:
  assumes "Multiaddr (JString x) = Inr A" "Multiaddr (JString y) = Inr B"
  shows "\<exists>E D. encapsulate A (JMultiaddr B) = Inr E \<and> decapsulate E B = Inr D
           \<and> equals D A \<and> D = A"
proof -
  from encapsulate_built [OF assms] obtain ta sa sb E where
    h: "A = \<lparr>buffer = tuplesToBuffer ta\<rparr>" "toString B = Inr sb" "string_tuples sa = Inr ta"
       "encapsulate A (JMultiaddr B) = Inr E" "toString E = Inr (sa @ sb)"
    by blast
  have "decapsulate E B = Multiaddr (JString sa)"
    using h(2,5) by (simp add: decapsulate_def lastIndexOf_append)
  also have "\<dots> = Inr A" using h(1,3) by (simp add: Multiaddr_string_tuples)
  finally have "decapsulate E B = Inr A" .
  with h(4) show ?thesis by (simp add: equals_def)
qed

theorem C2_decapsulate_encapsulate_witness:
  "Multiaddr (JString ''/unix/a'') = Inr \<lparr>buffer = [0x90, 0x03, 0x01, 0x61]\<rparr>
   \<and> Multiaddr (JString ''/tcp/80'') = Inr \<lparr>buffer = [0x06, 0x00, 0x50]\<rparr>
   \<and> (\<exists>E D. encapsulate \<lparr>buffer = [0x90, 0x03, 0x01, 0x61]\<rparr>
                (JMultiaddr \<lparr>buffer = [0x06, 0x00, 0x50]\<rparr>) = Inr E
            \<and> decapsulate E \<lparr>buffer = [0x06, 0x00, 0x50]\<rparr> = Inr D
            \<and> equals D \<lparr>buffer = [0x90, 0x03, 0x01, 0x61]\<rparr>)"
  using C2_decapsulate_encapsulate [OF unix_Multiaddr tcp80_Multiaddr]
  by (auto simp: unix_Multiaddr tcp80_Multiaddr)

text \<open>
  The second hazard of the textual search: \<open>/http\<close> occurs in \<open>/dns/http\<close>, and what
  is left before it, \<open>/dns\<close>, is no address.
\<close>

lemma dns_http_tuples:
  "bufferToTuples [0x35, 0x04, 0x68, 0x74, 0x74, 0x70] = Inr [(53, [0x04, 0x68, 0x74, 0x74, 0x70])]"
  by (simp add: bufferToTuples.simps protocols_table sizeForAddr_def)

lemma http_tuples: "bufferToTuples [0xe0, 0x03] = Inr [(480, [])]"
  by (simp add: bufferToTuples.simps protocols_table sizeForAddr_def)

lemma example_decapsulate_fails:
  "Multiaddr (JString ''/dns/http'') = Inr \<lparr>buffer = [0x35, 0x04, 0x68, 0x74, 0x74, 0x70]\<rparr>
   \<and> Multiaddr (JString ''/http'') = Inr \<lparr>buffer = [0xe0, 0x03]\<rparr>
   \<and> decapsulate \<lparr>buffer = [0x35, 0x04, 0x68, 0x74, 0x74, 0x70]\<rparr> \<lparr>buffer = [0xe0, 0x03]\<rparr>
       = Inl InvalidFormat"
proof -
  have a: "Multiaddr (JString ''/dns/http'')
      = Inr \<lparr>buffer = [0x35, 0x04, 0x68, 0x74, 0x74, 0x70]\<rparr>"
    by (simp add: Multiaddr_def fromString_def protocols_byName_table toBytes_def
          text_toBytes_def emit_def varint_encode_small byte_of_char_def)
  have b: "Multiaddr (JString ''/http'') = Inr \<lparr>buffer = [0xe0, 0x03]\<rparr>"
    by (simp add: Multiaddr_def fromString_def protocols_byName_table varint_encode_eval)
  have s: "toString \<lparr>buffer = [0x35, 0x04, 0x68, 0x74, 0x74, 0x70]\<rparr> = Inr ''/dns/http''"
    by (simp add: toString_def bufferToString_def dns_http_tuples protocols_table
          toDisplay_def text_toDisplay_def payload_def char_of_byte_eval)
  have t: "toString \<lparr>buffer = [0xe0, 0x03]\<rparr> = Inr ''/http''"
    by (simp add: toString_def bufferToString_def http_tuples protocols_table)
  have p: "Multiaddr (JString ''/dns'') = Inl InvalidFormat"
    by (simp add: Multiaddr_def fromString_def protocols_byName_table)
  have "decapsulate \<lparr>buffer = [0x35, 0x04, 0x68, 0x74, 0x74, 0x70]\<rparr> \<lparr>buffer = [0xe0, 0x03]\<rparr>
      = Inl InvalidFormat"
    using lastIndexOf_append [of "''/dns''" "''/http''"]
    by (simp add: decapsulate_def s t p)
  with a b show ?thesis by simp
qed

section \<open>Equality\<close>

text \<open>
  Claim C5 as stated fails: the address built from the string \<open>/ip4/127.0.0.1\<close> and
  the address built from the bytes \<open>84 00 7f 00 00 01\<close> have the same tuple sequence
  and the same canonical string, the same logical address, and are not equal.
\<close>

theorem C5_counterexample:
  "Multiaddr (JString ''/ip4/127.0.0.1'') = Inr \<lparr>buffer = [0x04, 0x7f, 0x00, 0x00, 0x01]\<rparr>
   \<and> Multiaddr (JBuffer [0x84, 0x00, 0x7f, 0x00, 0x00, 0x01])
       = Inr \<lparr>buffer = [0x84, 0x00, 0x7f, 0x00, 0x00, 0x01]\<rparr>
   \<and> tuples \<lparr>buffer = [0x04, 0x7f, 0x00, 0x00, 0x01]\<rparr> = Inr [(4, [0x7f, 0x00, 0x00, 0x01])]
   \<and> tuples \<lparr>buffer = [0x84, 0x00, 0x7f, 0x00, 0x00, 0x01]\<rparr>
       = Inr [(4, [0x7f, 0x00, 0x00, 0x01])]
   \<and> toString \<lparr>buffer = [0x04, 0x7f, 0x00, 0x00, 0x01]\<rparr> = Inr ''/ip4/127.0.0.1''
   \<and> toString \<lparr>buffer = [0x84, 0x00, 0x7f, 0x00, 0x00, 0x01]\<rparr> = Inr ''/ip4/127.0.0.1''
   \<and> \<not> equals \<lparr>buffer = [0x04, 0x7f, 0x00, 0x00, 0x01]\<rparr>
         \<lparr>buffer = [0x84, 0x00, 0x7f, 0x00, 0x00, 0x01]\<rparr>"
  by (simp add: Multiaddr_def ip4_fromString fromBuffer_def long_varint_tuples tuples_def
        ip4_tuples ip4_toString long_varint_toString equals_def)

text \<open>
  Claim C5, as amended. Two addresses are equal if and only if their byte sequences are
  equal, and equality is reflexive and symmetric. The binary path accepts exactly the
  byte sequences that decompose into tuples and keeps them as they are. An address built
  from a string and an address built from bytes that have the same tuple sequence are
  equal if and only if the bytes are the canonical encoding of the tuples, and building
  from the canonical encoding of the tuples of a string-built address gives that
  address.
\<close>

theorem C5_equals:
  "(equals a b \<longleftrightarrow> buffer a = buffer b) \<and> equals a a \<and> (equals a b \<longleftrightarrow> equals b a)
   \<and> ((\<exists>n. Multiaddr (JBuffer bs) = Inr n) \<longleftrightarrow> (\<exists>us. bufferToTuples bs = Inr us))
   \<and> (Multiaddr (JBuffer bs) = Inr n \<longrightarrow> buffer n = bs)
   \<and> (Multiaddr (JString s) = Inr m \<and> Multiaddr (JBuffer bs) = Inr n
        \<and> tuples m = Inr ts \<and> tuples n = Inr ts
      \<longrightarrow> (equals m n \<longleftrightarrow> bs = tuplesToBuffer ts))
   \<and> (Multiaddr (JString s) = Inr m \<and> tuples m = Inr ts
      \<longrightarrow> Multiaddr (JBuffer (tuplesToBuffer ts)) = Inr m)"
proof -
  have bin: "(\<exists>n. Multiaddr (JBuffer bs) = Inr n) \<longleftrightarrow> (\<exists>us. bufferToTuples bs = Inr us)"
    by (auto simp: Multiaddr_def fromBuffer_def split: sum.splits)
  have keep: "buffer n = bs" if "Multiaddr (JBuffer bs) = Inr n"
    using that by (auto simp: Multiaddr_def fromBuffer_def split: sum.splits)
  have canon: "m = \<lparr>buffer = tuplesToBuffer ts\<rparr> \<and> list_all tuple_ok ts"
    if "Multiaddr (JString s) = Inr m" "tuples m = Inr ts"
    using string_built [OF that(1)] that(2) by auto
  have eq: "equals m n \<longleftrightarrow> bs = tuplesToBuffer ts"
    if "Multiaddr (JString s) = Inr m" "Multiaddr (JBuffer bs) = Inr n" "tuples m = Inr ts"
    using canon [OF that(1,3)] keep [OF that(2)] by (auto simp: equals_def)
  have build: "Multiaddr (JBuffer (tuplesToBuffer ts)) = Inr m"
    if "Multiaddr (JString s) = Inr m" "tuples m = Inr ts"
    using canon [OF that]
    by (simp add: Multiaddr_def fromBuffer_def bufferToTuples_tuplesToBuffer)
  from bin keep eq build show ?thesis by (auto simp: equals_def)
qed

theorem C5_equals_witness:
  "Multiaddr (JString ''/ip4/127.0.0.1'') = Inr \<lparr>buffer = [0x04, 0x7f, 0x00, 0x00, 0x01]\<rparr>
   \<and> Multiaddr (JBuffer [0x04, 0x7f, 0x00, 0x00, 0x01])
       = Inr \<lparr>buffer = [0x04, 0x7f, 0x00, 0x00, 0x01]\<rparr>
   \<and> tuples \<lparr>buffer = [0x04, 0x7f, 0x00, 0x00, 0x01]\<rparr> = Inr [(4, [0x7f, 0x00, 0x00, 0x01])]
   \<and> tuplesToBuffer [(4, [0x7f, 0x00, 0x00, 0x01])] = [0x04, 0x7f, 0x00, 0x00, 0x01]
   \<and> equals \<lparr>buffer = [0x04, 0x7f, 0x00, 0x00, 0x01]\<rparr> \<lparr>buffer = [0x04, 0x7f, 0x00, 0x00, 0x01]\<rparr>
   \<and> (\<exists>us. bufferToTuples [0x04, 0x7f, 0x00, 0x00, 0x01] = Inr us)"
proof -
  let ?m = "\<lparr>buffer = [0x04, 0x7f, 0x00, 0x00, 0x01]\<rparr>"
  have s: "Multiaddr (JString ''/ip4/127.0.0.1'') = Inr ?m"
    by (simp add: Multiaddr_def ip4_fromString)
  have b: "Multiaddr (JBuffer [0x04, 0x7f, 0x00, 0x00, 0x01]) = Inr ?m"
    by (simp add: Multiaddr_def fromBuffer_def ip4_tuples)
  have t: "tuples ?m = Inr [(4, [0x7f, 0x00, 0x00, 0x01])]"
    by (simp add: tuples_def ip4_tuples)
  have c: "tuplesToBuffer [(4, [0x7f, 0x00, 0x00, 0x01])] = [0x04, 0x7f, 0x00, 0x00, 0x01]"
    by (simp add: tuplesToBuffer_simps varint_encode_small)
  from C5_equals [of ?m ?m "[0x04, 0x7f, 0x00, 0x00, 0x01]" ?m "''/ip4/127.0.0.1''" ?m
      "[(4, [0x7f, 0x00, 0x00, 0x01])]"] s b t c
  show ?thesis by simp
qed

section \<open>Protocol views\<close>

lemma protoCodes_loop_tuples:
  "bufferToTuples (drop i buf) = Inr ts \<Longrightarrow>
     protoCodes_loop protocols buf i acc = Inr (acc @ map fst ts)"
proof (induction ts arbitrary: i acc)
  case Nil
  from bufferToTuples_Inr_cases [OF Nil] have "drop i buf = []" by auto
  then have "\<not> i < length buf" by simp
  then show ?case by (subst protoCodes_loop.simps) simp
next
  case (Cons t ts)
  from bufferToTuples_Inr_cases [OF Cons.prems]
  obtain c n p sz where h: "drop i buf \<noteq> []" "varint_decode (drop i buf) = Some (c, n)"
      "protocols c = Some p" "sizeForAddr p (drop n (drop i buf)) = Inr sz"
      "bufferToTuples (drop (n + sz) (drop i buf)) = Inr ts" "fst t = c"
    by auto
  from h(1) have lt: "i < length buf" by simp
  have d1: "drop (i + n) buf = drop n (drop i buf)" by (simp add: add.commute)
  have d2: "drop (i + (sz + n)) buf = drop (n + sz) (drop i buf)" by (simp add: ac_simps)
  from h(5) have "bufferToTuples (drop (i + (sz + n)) buf) = Inr ts" by (simp only: d2)
  from Cons.IH [OF this]
  have "protoCodes_loop protocols buf (i + (sz + n)) (acc @ [c])
          = Inr ((acc @ [c]) @ map fst ts)" .
  then show ?case using lt h
    by (subst protoCodes_loop.simps) (simp add: d1)
qed

lemma protoCodes_tuples: "tuples m = Inr ts \<Longrightarrow> protoCodes m = Inr (map fst ts)"
  using protoCodes_loop_tuples [of 0 "buffer m" ts "[]"]
  by (simp add: tuples_def protoCodes_def)

lemma map_throw_protocols:
  "list_all tuple_ok ts \<Longrightarrow>
     \<exists>ps. map_throw protocols_or_throw (map fst ts) = Inr ps \<and> map code ps = map fst ts
          \<and> map Some ps = map (protocols \<circ> fst) ts"
proof (induction ts)
  case Nil
  then show ?case by simp
next
  case (Cons t ts)
  obtain c v where t: "t = (c, v)" by (cases t)
  with Cons.prems obtain p where
    p: "protocols c = Some p" "code p = c"
    by (auto simp: tuple_ok_def split: option.splits dest: protocols_code)
  from Cons obtain ps where "map_throw protocols_or_throw (map fst ts) = Inr ps"
    "map code ps = map fst ts" "map Some ps = map (protocols \<circ> fst) ts" by auto
  moreover have "protocols_or_throw c = Inr p" using p by (simp add: protocols_or_throw_def)
  ultimately show ?case using p unfolding t by simp
qed

lemma protos_tuples:
  assumes "tuples m = Inr ts" "list_all tuple_ok ts"
  shows "\<exists>ps. protos m = Inr ps \<and> map code ps = map fst ts
            \<and> map Some ps = map (protocols \<circ> fst) ts"
  using map_throw_protocols [OF assms(2)] protoCodes_tuples [OF assms(1)]
  by (simp add: protos_def)

lemma isThinWaistAddress_tuples:
  assumes "tuples m = Inr ts" "list_all tuple_ok ts"
  shows "isThinWaistAddress m None =
           Inr (\<exists>c0 v0 c1 v1. ts = [(c0, v0), (c1, v1)]
                  \<and> (c0 = 4 \<or> c0 = 41) \<and> (c1 = 6 \<or> c1 = 17))"
proof -
  from protos_tuples [OF assms] obtain ps where
    ps: "protos m = Inr ps" "map code ps = map fst ts" by blast
  then have len: "length ps = length ts" by (metis length_map)
  show ?thesis
  proof (cases "length ts = 2")
    case False
    then have "\<not> (\<exists>c0 v0 c1 v1. ts = [(c0, v0), (c1, v1)]
                  \<and> (c0 = 4 \<or> c0 = 41) \<and> (c1 = 6 \<or> c1 = 17))" by auto
    with False len ps show ?thesis by (simp add: isThinWaistAddress_def)
  next
    case True
    then obtain c0 v0 c1 v1 where ts: "ts = [(c0, v0), (c1, v1)]"
      by (auto simp: numeral_2_eq_2 length_Suc_conv)
    with len obtain p0 p1 where pp: "ps = [p0, p1]"
      by (auto simp: numeral_2_eq_2 length_Suc_conv)
    with ps ts have "code p0 = c0" "code p1 = c1" by simp_all
    with ps pp ts show ?thesis by (auto simp: isThinWaistAddress_def)
  qed
qed

lemma thin_waist_render:
  assumes "tuple_ok (c, v)" "c = 4 \<or> c = 41 \<or> c = 6 \<or> c = 17"
  shows "\<exists>p d. protocols c = Some p \<and> size_policy p \<noteq> NoValue
           \<and> CHR ''/'' \<notin> set (name p) \<and> toDisplay p v = Inr d \<and> CHR ''/'' \<notin> set d"
proof -
  from assms consider "c = 4" "length v = 4" | "c = 6" "length v = 2"
    | "c = 17" "length v = 2" | "c = 41" "length v = 16"
    by (auto simp: tuple_ok_def protocols_table)
  then show ?thesis
  proof cases
    case 1
    then obtain d where d: "ip4_toDisplay v = Some d" by (simp add: ip4_toDisplay_def)
    from ip4_toDisplay_no_sep [OF d] d 1 show ?thesis
      by (simp add: protocols_table toDisplay_def)
  next
    case 2
    then obtain d where d: "port_toDisplay v = Some d" using port_toDisplay_total by blast
    from port_toDisplay_no_sep [OF d] d 2 show ?thesis
      by (simp add: protocols_table toDisplay_def)
  next
    case 3
    then obtain d where d: "port_toDisplay v = Some d" using port_toDisplay_total by blast
    from port_toDisplay_no_sep [OF d] d 3 show ?thesis
      by (simp add: protocols_table toDisplay_def)
  next
    case 4
    then obtain d where d: "ip6_toDisplay v = Some d" by (simp add: ip6_toDisplay_def)
    from ip6_toDisplay_no_sep [OF d] d 4 show ?thesis
      by (simp add: protocols_table toDisplay_def)
  qed
qed

lemma js_split_rendering2:
  assumes "CHR ''/'' \<notin> set n0" "CHR ''/'' \<notin> set d0" "CHR ''/'' \<notin> set n1"
    "CHR ''/'' \<notin> set d1"
  shows "js_split CHR ''/'' (n0 @ CHR ''/'' # d0 @ CHR ''/'' # n1 @ CHR ''/'' # d1)
           = [n0, d0, n1, d1]"
  using assms by (simp add: js_split_append js_split_no_sep)

text \<open>
  Claim C6. The thin-waist predicate is true for an address if and only if the address
  has exactly two components, the first IPv4 (code 4) or IPv6 (code 41), the second tcp
  (code 6) or udp (code 17); the address is \<open>this\<close>, or the optional argument when one
  is given. \<open>nodeAddress\<close> fails for every other address, and maps a
  thin-waist address to the family of its first component, the rendered value of the
  first component as host, and the rendered value of the second component as port.
\<close>

theorem C6_thin_waist:
  assumes "valid_address m"
  shows "\<exists>ts. tuples m = Inr ts
         \<and> isThinWaistAddress other (Some m) = isThinWaistAddress m None
         \<and> isThinWaistAddress m None =
              Inr (\<exists>c0 v0 c1 v1. ts = [(c0, v0), (c1, v1)]
                     \<and> (c0 = 4 \<or> c0 = 41) \<and> (c1 = 6 \<or> c1 = 17))
         \<and> (isThinWaistAddress m None = Inr False \<longrightarrow> nodeAddress m = Inl NotThinWaist)
         \<and> (\<forall>c0 v0 c1 v1.
               ts = [(c0, v0), (c1, v1)] \<and> (c0 = 4 \<or> c0 = 41) \<and> (c1 = 6 \<or> c1 = 17) \<longrightarrow>
               (\<exists>p0 p1 h pt.
                   protocols c0 = Some p0 \<and> protocols c1 = Some p1
                 \<and> toDisplay p0 v0 = Inr h \<and> toDisplay p1 v1 = Inr pt
                 \<and> nodeAddress m =
                     Inr \<lparr>na_family = (if c0 = 41 then ''IPv6'' else ''IPv4''),
                          na_address = Some h, na_port = Some pt\<rparr>))"
proof -
  from valid_address_tuples [OF assms] obtain ts where
    ts: "tuples m = Inr ts" "list_all tuple_ok ts" by blast
  note thin = isThinWaistAddress_tuples [OF ts]
  have fail: "isThinWaistAddress m None = Inr False \<longrightarrow> nodeAddress m = Inl NotThinWaist"
    by (simp add: nodeAddress_def)
  have node: "\<exists>p0 p1 h pt.
        protocols c0 = Some p0 \<and> protocols c1 = Some p1
      \<and> toDisplay p0 v0 = Inr h \<and> toDisplay p1 v1 = Inr pt
      \<and> nodeAddress m =
          Inr \<lparr>na_family = (if c0 = 41 then ''IPv6'' else ''IPv4''),
               na_address = Some h, na_port = Some pt\<rparr>"
    if two: "ts = [(c0, v0), (c1, v1)]" and c0: "c0 = 4 \<or> c0 = 41" and c1: "c1 = 6 \<or> c1 = 17"
    for c0 v0 c1 v1
  proof -
    from ts(2) two have ok: "tuple_ok (c0, v0)" "tuple_ok (c1, v1)" by simp_all
    from thin_waist_render [OF ok(1)] c0 obtain p0 h where
      p0: "protocols c0 = Some p0" "size_policy p0 \<noteq> NoValue" "CHR ''/'' \<notin> set (name p0)"
          "toDisplay p0 v0 = Inr h" "CHR ''/'' \<notin> set h" by blast
    from thin_waist_render [OF ok(2)] c1 obtain p1 pt where
      p1: "protocols c1 = Some p1" "size_policy p1 \<noteq> NoValue" "CHR ''/'' \<notin> set (name p1)"
          "toDisplay p1 v1 = Inr pt" "CHR ''/'' \<notin> set pt" by blast
    have s: "toString m
        = Inr (CHR ''/'' # name p0 @ CHR ''/'' # h @ CHR ''/'' # name p1 @ CHR ''/'' # pt)"
      using ts(1) two p0 p1 by (simp add: toString_tuples)
    have sp: "js_split CHR ''/''
        (name p0 @ CHR ''/'' # h @ CHR ''/'' # name p1 @ CHR ''/'' # pt)
        = [name p0, h, name p1, pt]"
      using p0 p1 by (intro js_split_rendering2) simp_all
    have codes: "protoCodes m = Inr [c0, c1]"
      using protoCodes_tuples [OF ts(1)] two by simp
    have "isThinWaistAddress m None = Inr True" using thin two c0 c1 by simp
    then have "nodeAddress m =
        Inr \<lparr>na_family = (if c0 = 41 then ''IPv6'' else ''IPv4''),
             na_address = Some h, na_port = Some pt\<rparr>"
      by (simp add: nodeAddress_def codes s sp js_index_def Let_def)
    with p0 p1 show ?thesis by blast
  qed
  have opt: "isThinWaistAddress other (Some m) = isThinWaistAddress m None"
    by (simp add: isThinWaistAddress_def)
  from ts(1) opt thin fail node show ?thesis by blast
qed

theorem C6_thin_waist_witness:
  "valid_address \<lparr>buffer = [0x04, 0x7f, 0x00, 0x00, 0x01, 0x06, 0x0f, 0xa1]\<rparr>
   \<and> isThinWaistAddress \<lparr>buffer = [0x04, 0x7f, 0x00, 0x00, 0x01, 0x06, 0x0f, 0xa1]\<rparr> None
       = Inr True
   \<and> nodeAddress \<lparr>buffer = [0x04, 0x7f, 0x00, 0x00, 0x01, 0x06, 0x0f, 0xa1]\<rparr>
       = Inr \<lparr>na_family = ''IPv4'', na_address = Some ''127.0.0.1'',
              na_port = Some ''4001''\<rparr>"
proof -
  let ?m = "\<lparr>buffer = [0x04, 0x7f, 0x00, 0x00, 0x01, 0x06, 0x0f, 0xa1]\<rparr>"
  have d0: "toDisplay \<lparr>code = 4, size_policy = Fixed 32, name = ''ip4'', path = False\<rparr>
              [0x7f, 0x00, 0x00, 0x01] = Inr ''127.0.0.1''"
    by (simp add: toDisplay_def ip4_toDisplay_def example_showNat)
  have d1: "toDisplay \<lparr>code = 6, size_policy = Fixed 16, name = ''tcp'', path = False\<rparr>
              [0x0f, 0xa1] = Inr ''4001''"
    by (simp add: toDisplay_def port_toDisplay_def example_showNat)
  from C6_thin_waist [OF example_valid] show ?thesis
    using example_valid d0 d1
    by (auto simp: tuples_def example_tuples protocols_table)
qed
section \<open>\<open>protos\<close> and aliasing\<close>

text \<open>
  Modelled from the spec: \<open>protocols.js\<close> is not among the sources, so the objects of the
  registry are modelled here. Whether a caller can reach the registry through what
  \<open>protos\<close> returns depends on which objects are shared, so descriptors live in a store: a
  map from addresses to descriptor contents and the next free address. The registry is
  built once; the descriptor at position \<open>i\<close> of the table is the object at address \<open>i\<close>,
  and \<open>protocols(code)\<close> returns the registry's own object for the code it was registered
  under (the comment in \<open>protos\<close> says so: the copy is there "to prevent users from
  modifying the internal objs").
\<close>

type_synonym ref = nat

record store =
  objs :: "ref \<Rightarrow> proto option"
  next_ref :: ref

definition registry_store :: store where
  "registry_store =
     \<lparr>objs = (\<lambda>r. if r < length table then Some (table ! r) else None),
      next_ref = length table\<rparr>"

fun find_ref :: "nat \<Rightarrow> proto list \<Rightarrow> ref \<Rightarrow> ref option" where
  "find_ref c [] r = None"
| "find_ref c (p # ps) r = (if code p = c then Some r else find_ref c ps (Suc r))"

definition protocols_ref :: "nat \<Rightarrow> ref option" where
  "protocols_ref c = find_ref c table 0"

text \<open>Reading the descriptor of a code through the store, as \<open>protoCodes\<close> does.\<close>

definition look :: "store \<Rightarrow> nat \<Rightarrow> proto option" where
  "look st c = (case protocols_ref c of None \<Rightarrow> None | Some r \<Rightarrow> objs st r)"

text \<open>
  \<open>extend(obj)\<close> of the package \<open>xtend\<close> that \<open>src/index.js\<close> requires, called with one
  argument: a new object that holds a copy of every own property of \<open>obj\<close>.
\<close>

definition extend :: "store \<Rightarrow> ref \<Rightarrow> (ref \<times> store) option" where
  "extend st r =
     (case objs st r of
        None \<Rightarrow> None
      | Some d \<Rightarrow>
          Some (next_ref st,
                st\<lparr>objs := (objs st)(next_ref st \<mapsto> d), next_ref := Suc (next_ref st)\<rparr>))"

text \<open>\<open>map(codes, function (code) { return extend(protocols(code)) })\<close>, call by call.\<close>

fun protos_copy :: "store \<Rightarrow> nat list \<Rightarrow> error + (ref list \<times> store)" where
  "protos_copy st [] = Inr ([], st)"
| "protos_copy st (c # cs) =
     (case protocols_ref c of
        None \<Rightarrow> Inl UnknownProtocol
      | Some r \<Rightarrow>
          (case extend st r of
             None \<Rightarrow> Inl UnknownProtocol
           | Some (r', st') \<Rightarrow>
               (case protos_copy st' cs of
                  Inl e \<Rightarrow> Inl e
                | Inr (rs, st'') \<Rightarrow> Inr (r' # rs, st''))))"

definition protos_st :: "store \<Rightarrow> multiaddr \<Rightarrow> error + (ref list \<times> store)" where
  "protos_st st m =
     (case protoCodes_loop (look st) (buffer m) 0 [] of
        Inl e \<Rightarrow> Inl e
      | Inr codes \<Rightarrow> protos_copy st codes)"

text \<open>What a caller can do with the records it was given: assign to their properties.\<close>

definition assign :: "store \<Rightarrow> ref \<Rightarrow> proto \<Rightarrow> store" where
  "assign st r d = st\<lparr>objs := (objs st)(r \<mapsto> d)\<rparr>"

fun assign_all :: "store \<Rightarrow> (ref \<times> proto) list \<Rightarrow> store" where
  "assign_all st [] = st"
| "assign_all st ((r, d) # ws) = assign_all (assign st r d) ws"

text \<open>The registry is unchanged: every table address holds the descriptor it was built with.\<close>

definition registry_intact :: "store \<Rightarrow> bool" where
  "registry_intact st =
     (list_all (\<lambda>r. objs st r = Some (table ! r)) [0..<length table]
      \<and> length table \<le> next_ref st)"

lemma registry_intact_iff:
  "registry_intact st \<longleftrightarrow>
     (\<forall>r<length table. objs st r = Some (table ! r)) \<and> length table \<le> next_ref st"
  by (auto simp: registry_intact_def list_all_iff)

lemma registry_store_intact: "registry_intact registry_store"
  by (simp add: registry_intact_iff registry_store_def)

lemma find_ref_Some:
  "find_ref c ps k = Some r \<Longrightarrow>
     k \<le> r \<and> r < k + length ps \<and> find (\<lambda>p. code p = c) ps = Some (ps ! (r - k))"
proof (induction ps arbitrary: k)
  case Nil
  then show ?case by simp
next
  case (Cons p ps)
  show ?case
  proof (cases "code p = c")
    case True
    with Cons.prems show ?thesis by simp
  next
    case False
    with Cons.prems have "find_ref c ps (Suc k) = Some r" by simp
    from Cons.IH [OF this] False show ?thesis by (auto simp: Suc_diff_le)
  qed
qed

lemma find_ref_None: "find_ref c ps k = None \<Longrightarrow> find (\<lambda>p. code p = c) ps = None"
  by (induction ps arbitrary: k) (auto split: if_splits)

lemma look_intact: "registry_intact st \<Longrightarrow> look st = protocols"
proof (rule ext)
  fix c
  assume i: "registry_intact st"
  show "look st c = protocols c"
  proof (cases "protocols_ref c")
    case None
    then show ?thesis
      by (simp add: look_def protocols_def protocols_ref_def find_ref_None)
  next
    case (Some r)
    from find_ref_Some [OF Some [unfolded protocols_ref_def]]
    have "r < length table" "protocols c = Some (table ! r)"
      by (simp_all add: protocols_def)
    with i Some show ?thesis by (simp add: look_def registry_intact_iff)
  qed
qed

lemma protocols_ref_Some:
  "protocols_ref c = Some r \<Longrightarrow> r < length table \<and> protocols c = Some (table ! r)"
  using find_ref_Some [of c table 0 r] by (simp add: protocols_ref_def protocols_def)

lemma protos_copy_Inr:
  "registry_intact st \<Longrightarrow> protos_copy st cs = Inr (rs, st1) \<Longrightarrow>
     registry_intact st1 \<and> next_ref st1 = next_ref st + length cs
     \<and> rs = [next_ref st..<next_ref st + length cs]
     \<and> map (objs st1) rs = map protocols cs
     \<and> list_all (\<lambda>c. protocols c \<noteq> None) cs"
proof (induction cs arbitrary: st rs st1)
  case Nil
  then show ?case by simp
next
  case (Cons c cs)
  from Cons.prems(2) obtain r r' st' rs' where
    h: "protocols_ref c = Some r" "extend st r = Some (r', st')"
       "protos_copy st' cs = Inr (rs', st1)" "rs = r' # rs'"
    by (auto split: option.splits sum.splits prod.splits)
  from protocols_ref_Some [OF h(1)] have r: "r < length table" "protocols c = Some (table ! r)"
    by simp_all
  from Cons.prems(1) r have o: "objs st r = Some (table ! r)" and n: "length table \<le> next_ref st"
    by (simp_all add: registry_intact_iff)
  from h(2) o have e: "r' = next_ref st"
    "st' = st\<lparr>objs := (objs st)(next_ref st \<mapsto> table ! r), next_ref := Suc (next_ref st)\<rparr>"
    by (auto simp: extend_def)
  have i': "registry_intact st'"
    using Cons.prems(1) n unfolding e registry_intact_iff by auto
  from Cons.IH [OF i' h(3)] have ih: "registry_intact st1"
    "next_ref st1 = next_ref st' + length cs"
    "rs' = [next_ref st'..<next_ref st' + length cs]"
    "map (objs st1) rs' = map protocols cs"
    "list_all (\<lambda>c. protocols c \<noteq> None) cs" by blast+
  have keep: "objs st1 (next_ref st) = objs st' (next_ref st)"
  proof -
    have "\<forall>cs st rs st1 q. protos_copy st cs = Inr (rs, st1) \<longrightarrow> q < next_ref st
            \<longrightarrow> objs st1 q = objs st q"
    proof (intro allI)
      fix cs :: "nat list" and st rs st1 q
      show "protos_copy st cs = Inr (rs, st1) \<longrightarrow> q < next_ref st
            \<longrightarrow> objs st1 q = objs st q"
      proof (induction cs arbitrary: st rs st1)
        case Nil
        then show ?case by simp
      next
        case (Cons c cs)
        show ?case
        proof (intro impI)
          assume a: "protos_copy st (c # cs) = Inr (rs, st1)" and q: "q < next_ref st"
          from a obtain r d rs' where
            "objs st r = Some d"
            "protos_copy (st\<lparr>objs := (objs st)(next_ref st \<mapsto> d),
                next_ref := Suc (next_ref st)\<rparr>) cs = Inr (rs', st1)"
            by (auto simp: extend_def split: option.splits sum.splits prod.splits)
          with Cons.IH [of "st\<lparr>objs := (objs st)(next_ref st \<mapsto> d),
                next_ref := Suc (next_ref st)\<rparr>" rs' st1] q
          show "objs st1 q = objs st q" by simp
        qed
      qed
    qed
    with h(3) e show ?thesis by simp
  qed
  have "[next_ref st..<next_ref st + length (c # cs)]
          = next_ref st # [Suc (next_ref st)..<next_ref st + length (c # cs)]"
    by (rule upt_conv_Cons) simp
  moreover have "next_ref st + length (c # cs) = Suc (next_ref st) + length cs" by simp
  ultimately have "[next_ref st..<next_ref st + length (c # cs)]
          = next_ref st # [Suc (next_ref st)..<Suc (next_ref st) + length cs]"
    by (simp only:)
  with ih e h(4) r keep show ?case by simp
qed

lemma protos_copy_facts:
  assumes "registry_intact st" "protos_copy st cs = Inr (rs, st1)"
  shows "registry_intact st1" and "next_ref st1 = next_ref st + length cs"
    and "rs = [next_ref st..<next_ref st + length cs]"
    and "map (objs st1) rs = map protocols cs"
    and "list_all (\<lambda>c. protocols c \<noteq> None) cs"
  using protos_copy_Inr [OF assms] by blast+

lemma protos_copy_total:
  "registry_intact st \<Longrightarrow> list_all (\<lambda>c. protocols c \<noteq> None) cs \<Longrightarrow>
     \<exists>rs st1. protos_copy st cs = Inr (rs, st1)"
proof (induction cs arbitrary: st)
  case Nil
  then show ?case by simp
next
  case (Cons c cs)
  from Cons.prems(2) obtain p where p: "protocols c = Some p" by auto
  then obtain r where r: "protocols_ref c = Some r"
    using find_ref_None [of c table 0]
    by (cases "protocols_ref c") (auto simp: protocols_ref_def protocols_def)
  from protocols_ref_Some [OF r] Cons.prems(1) have o: "objs st r = Some (table ! r)"
    and n: "length table \<le> next_ref st"
    by (simp_all add: registry_intact_iff)
  let ?st' = "st\<lparr>objs := (objs st)(next_ref st \<mapsto> table ! r), next_ref := Suc (next_ref st)\<rparr>"
  have "registry_intact ?st'"
    using Cons.prems(1) n unfolding registry_intact_iff by auto
  from Cons.IH [OF this] Cons.prems(2) obtain rs st1 where
    "protos_copy ?st' cs = Inr (rs, st1)" by auto
  with r o show ?case by (simp add: extend_def)
qed

lemma assign_all_outside:
  "list_all (\<lambda>w. fst w \<in> A) ws \<Longrightarrow> r \<notin> A \<Longrightarrow> objs (assign_all st ws) r = objs st r"
  by (induction st ws rule: assign_all.induct) (auto simp: assign_def)

lemma assign_all_next_ref: "next_ref (assign_all st ws) = next_ref st"
  by (induction st ws rule: assign_all.induct) (auto simp: assign_def)

lemma map_throw_protocols_total:
  "list_all (\<lambda>c. protocols c \<noteq> None) cs \<Longrightarrow>
     \<exists>ps. map_throw protocols_or_throw cs = Inr ps \<and> map Some ps = map protocols cs"
proof (induction cs)
  case Nil
  then show ?case by simp
next
  case (Cons c cs)
  then obtain p where p: "protocols c = Some p" by auto
  then have "protocols_or_throw c = Inr p" by (simp add: protocols_or_throw_def)
  moreover from Cons obtain ps where "map_throw protocols_or_throw cs = Inr ps"
    "map Some ps = map protocols cs" by auto
  ultimately show ?case using p by simp
qed

text \<open>
  Claim C10. \<open>protos()\<close> returns fresh copies of the descriptors on every call. Once the
  caller has assigned to the records a call returned, in any way, the registry is
  unchanged, and a later call of \<open>protos()\<close> on the same or an equal address returns new
  records with the original descriptor contents.
\<close>

theorem C10_protos_fresh_copies:
  assumes "registry_intact st" "protos_st st m = Inr (rs, st1)"
    and "list_all (\<lambda>w. fst w \<in> set rs) writes" "equals m m'"
  shows "registry_intact (assign_all st1 writes)
       \<and> (\<exists>ps. protos m = Inr ps \<and> map (objs st1) rs = map Some ps
            \<and> list_all (\<lambda>r. length table \<le> r) rs \<and> distinct rs
            \<and> (\<exists>rs' st3. protos_st (assign_all st1 writes) m' = Inr (rs', st3)
                  \<and> map (objs st3) rs' = map Some ps \<and> set rs' \<inter> set rs = {}))"
proof -
  let ?st2 = "assign_all st1 writes"
  from assms(1) have lk: "look st = protocols" by (rule look_intact)
  from assms(2) obtain cs where cs: "protoCodes m = Inr cs" "protos_copy st cs = Inr (rs, st1)"
    by (auto simp: protos_st_def protoCodes_def lk split: sum.splits)
  note c1 = protos_copy_facts [OF assms(1) cs(2)]
  from assms(1) have n: "length table \<le> next_ref st" by (simp add: registry_intact_iff)
  have i2: "registry_intact ?st2"
    unfolding registry_intact_iff
  proof (intro conjI allI impI)
    fix r assume "r < length table"
    with n c1(3) have "r \<notin> set rs" by simp
    from assign_all_outside [OF assms(3) this] c1(1) \<open>r < length table\<close>
    show "objs ?st2 r = Some (table ! r)" by (simp add: registry_intact_iff)
  next
    show "length table \<le> next_ref ?st2"
      using c1(2) n by (simp add: assign_all_next_ref)
  qed
  from map_throw_protocols_total [OF c1(5)] obtain ps where
    ps: "map_throw protocols_or_throw cs = Inr ps" "map Some ps = map protocols cs" by blast
  then have p1: "protos m = Inr ps" using cs(1) by (simp add: protos_def)
  from protos_copy_total [OF i2 c1(5)] obtain rs' st3 where
    r3: "protos_copy ?st2 cs = Inr (rs', st3)" by blast
  note c3 = protos_copy_facts(3,4) [OF i2 r3]
  have same: "buffer m' = buffer m" using assms(4) by (simp add: equals_def)
  have "protos_st ?st2 m' = Inr (rs', st3)"
    using cs(1) r3 by (simp add: protos_st_def look_intact [OF i2] same protoCodes_def)
  moreover have "set rs' \<inter> set rs = {}"
    unfolding c3(1) c1(3) by (auto simp: assign_all_next_ref c1(2))
  moreover have "list_all (\<lambda>r. length table \<le> r) rs" "distinct rs"
    using n unfolding c1(3) by (simp_all add: list_all_iff)
  ultimately show ?thesis using i2 p1 ps c1(4) c3(2) by auto
qed

theorem C10_protos_fresh_copies_witness:
  "\<exists>rs st1.
     protos_st registry_store \<lparr>buffer = [0x04, 0x7f, 0x00, 0x00, 0x01, 0x06, 0x0f, 0xa1]\<rparr>
       = Inr (rs, st1)
   \<and> rs = [8, 9]
   \<and> registry_intact
        (assign_all st1
           [(8, \<lparr>code = 99, size_policy = NoValue, name = ''changed'', path = True\<rparr>)])
   \<and> (\<exists>rs' st3.
         protos_st
           (assign_all st1
              [(8, \<lparr>code = 99, size_policy = NoValue, name = ''changed'', path = True\<rparr>)])
           \<lparr>buffer = [0x04, 0x7f, 0x00, 0x00, 0x01, 0x06, 0x0f, 0xa1]\<rparr> = Inr (rs', st3)
       \<and> map (objs st3) rs'
           = [Some \<lparr>code = 4, size_policy = Fixed 32, name = ''ip4'', path = False\<rparr>,
              Some \<lparr>code = 6, size_policy = Fixed 16, name = ''tcp'', path = False\<rparr>])"
proof -
  let ?m = "\<lparr>buffer = [0x04, 0x7f, 0x00, 0x00, 0x01, 0x06, 0x0f, 0xa1]\<rparr>"
  let ?w = "[(8, \<lparr>code = 99, size_policy = NoValue, name = ''changed'', path = True\<rparr>)]"
  note i = registry_store_intact
  have cs: "protoCodes_loop (look registry_store) (buffer ?m) 0 [] = Inr [4, 6]"
    using example_protoCodes by (simp add: look_intact [OF i] protoCodes_def)
  have "list_all (\<lambda>c. protocols c \<noteq> None) [4, 6]" by (simp add: protocols_table)
  from protos_copy_total [OF i this] obtain rs st1 where
    p: "protos_copy registry_store [4, 6] = Inr (rs, st1)" by blast
  have "rs = [8..<8 + 2]"
    using protos_copy_facts(3) [OF i p] by (simp add: registry_store_def table_def)
  then have rs: "rs = [8, 9]" by (simp add: upt_rec)
  have pst: "protos_st registry_store ?m = Inr (rs, st1)"
    using cs p by (simp add: protos_st_def)
  have w: "list_all (\<lambda>w. fst w \<in> set rs) ?w" by (simp add: rs)
  have e: "equals ?m ?m" by (simp add: equals_def)
  have ps: "protos ?m = Inr [\<lparr>code = 4, size_policy = Fixed 32, name = ''ip4'', path = False\<rparr>,
      \<lparr>code = 6, size_policy = Fixed 16, name = ''tcp'', path = False\<rparr>]"
    by (simp add: protos_def example_protoCodes protocols_or_throw_def protocols_table)
  from C10_protos_fresh_copies [OF i pst w e] pst rs ps show ?thesis by auto
qed

end
